theory Spec2Isabelle
  imports Complex_Main "HOL-Library.Word" "HOL-Library.Log_Nat"
begin

section \<open>The motion-target game of \<^verbatim>\<open>src/components/GameCanvas.tsx\<close>\<close>

text \<open>
  The component keeps its game state in React refs and mutates them from three callbacks:
  \<^verbatim>\<open>updateGameState\<close> (spawning, ageing, removal, the clock), \<^verbatim>\<open>detectMotionAndCollisions\<close>
  (frame differencing, the cursor, the collision pass) and \<^verbatim>\<open>gameLoop\<close> (one animation
  frame). The refs become one record that every function takes and returns.

  Numbers. A JavaScript number is an IEEE double. Coordinates, sizes and timestamps are
  rationals (\<^typ>\<open>rat\<close>), and every operation of the source is kept. The rounding of an
  operation to a double is written out where a property depends on it, which is in the
  clock of \<^verbatim>\<open>updateGameState\<close> and in the centroid and the smoothing of the cursor
  (\<open>round64\<close> below); elsewhere the arithmetic is exact. The
  counters and \<^verbatim>\<open>hp\<close> only ever hold small integers and are \<^typ>\<open>nat\<close> and \<^typ>\<open>int\<close>. A
  channel of a \<^verbatim>\<open>Uint8ClampedArray\<close> is an \<^typ>\<open>8 word\<close>.

  Environment. What the browser supplies on a frame is an input of that frame: the
  timestamp, which DOM objects exist, the video size, the pixels \<^verbatim>\<open>getImageData\<close> returns and
  the four values \<^verbatim>\<open>Math.random()\<close> returns to a spawn, in the order the source draws them
  (size, id, x, y). The particle and floating-text lists are written by the collision
  pass and read only by the drawing code; they are left out, together with \<^verbatim>\<open>draw\<close>.
\<close>

subsection \<open>Constants\<close>

definition MOTION_THRESHOLD :: nat where
  "MOTION_THRESHOLD = 40"

definition HIT_PIXEL_COUNT_THRESHOLD :: nat where
  "HIT_PIXEL_COUNT_THRESHOLD = 25"

definition GRID_SCALE :: rat where
  "GRID_SCALE = 8"

definition ENEMY_SPAWN_RATE_MS :: rat where
  "ENEMY_SPAWN_RATE_MS = 1500"

definition ENEMY_LIFESPAN_MS :: rat where
  "ENEMY_LIFESPAN_MS = 5000"

definition GAME_DURATION_SEC :: rat where
  "GAME_DURATION_SEC = 60"

subsection \<open>Data (\<^verbatim>\<open>src/types.ts\<close>)\<close>

text \<open>The interface \<^verbatim>\<open>Enemy\<close>; the fields \<^verbatim>\<open>id, x, y, width, height\<close> carry a prefix.\<close>

record Enemy =
  enemy_id :: string
  enemy_x :: rat
  enemy_y :: rat
  enemy_width :: rat
  enemy_height :: rat
  hp :: int
  maxHp :: int
  spawnTime :: rat
  lastHitTime :: rat
  isHit :: bool

record GameStats =
  score :: nat
  headshots :: nat
  bodyshots :: nat
  enemiesSpawned :: nat
  enemiesDestroyed :: nat

text \<open>An active pixel \<^verbatim>\<open>{x, y}\<close> and one RGBA sample of an image.\<close>

type_synonym point = "rat \<times> rat"

type_synonym rgba = "8 word \<times> 8 word \<times> 8 word \<times> 8 word"

datatype error = IndexSizeError

text \<open>
  The refs and the React state of the component, the size of the main canvas, the calls
  made to \<^verbatim>\<open>onGameOver\<close> (latest first), whether an animation frame is requested, and the
  exception that left \<^verbatim>\<open>gameLoop\<close>, if one did.
\<close>

record state =
  scoreRef :: nat
  headshotsRef :: nat
  bodyshotsRef :: nat
  enemiesDestroyedRef :: nat
  enemiesSpawnedRef :: nat
  enemiesRef :: "Enemy list"
  lastSpawnTimeRef :: rat
  gameStartTimeRef :: rat
  prevFrameDataRef :: "rgba list option"
  cursorRef :: "point option"
  timeLeft :: rat
  scoreShown :: nat
  canvasWidth :: nat
  canvasHeight :: nat
  gameOverCalls :: "GameStats list"
  frameRequested :: bool
  uncaught :: "error option"

text \<open>What the browser supplies to one call of \<^verbatim>\<open>gameLoop\<close>.\<close>

record frame =
  timestamp :: rat
  canvasMounted :: bool
  videoReady :: bool
  videoWidth :: nat
  videoHeight :: nat
  context2d :: bool
  motionCanvasMounted :: bool
  motionContext2d :: bool
  imageData :: "rgba list"
  randomSize :: rat
  randomId :: rat
  randomX :: rat
  randomY :: rat

text \<open>
  The state of a freshly mounted component: the \<^verbatim>\<open>useRef\<close> and \<^verbatim>\<open>useState\<close> initial values, a
  canvas of the default size 300 by 150, and the first frame requested by the effect.
\<close>

definition initial :: state where
  "initial = \<lparr> scoreRef = 0, headshotsRef = 0, bodyshotsRef = 0, enemiesDestroyedRef = 0,
     enemiesSpawnedRef = 0, enemiesRef = [], lastSpawnTimeRef = 0, gameStartTimeRef = 0,
     prevFrameDataRef = None, cursorRef = None, timeLeft = GAME_DURATION_SEC, scoreShown = 0,
     canvasWidth = 300, canvasHeight = 150, gameOverCalls = [], frameRequested = True,
     uncaught = None \<rparr>"

subsection \<open>Identities: \<^verbatim>\<open>Math.random().toString(36).substr(2, 9)\<close>\<close>

definition digit36 :: "nat \<Rightarrow> char" where
  "digit36 d = ''0123456789abcdefghijklmnopqrstuvwxyz'' ! d"

text \<open>
  The digits of a fraction in radix 36, at most \<open>n\<close> of them, stopping when nothing is
  left. \<^verbatim>\<open>substr(2, 9)\<close> keeps nine characters after \<^verbatim>\<open>0.\<close>, so nine digits are enough. This
  is the exact expansion of the draw; where it ends within nine digits, as for the draws
  1/2, 1/4 and 3/4 used below, it is the string that JavaScript prints.
\<close>

fun fracDigits :: "nat \<Rightarrow> rat \<Rightarrow> string" where
  "fracDigits 0 r = []"
| "fracDigits (Suc n) r =
     (if r = 0 then []
      else digit36 (nat \<lfloor>r * 36\<rfloor>) # fracDigits n (r * 36 - of_int \<lfloor>r * 36\<rfloor>))"

definition toString36 :: "rat \<Rightarrow> string" where
  "toString36 r = (if r = 0 then ''0'' else ''0.'' @ fracDigits 9 r)"

definition substr :: "nat \<Rightarrow> nat \<Rightarrow> string \<Rightarrow> string" where
  "substr start len s = take len (drop start s)"

definition newId :: "rat \<Rightarrow> string" where
  "newId r = substr 2 9 (toString36 r)"

subsection \<open>Doubles\<close>

text \<open>
  \<open>round64\<close> is the rounding of the exact result of an operation to the nearest double,
  ties to the even significand. For \<open>x > 0\<close>, \<open>exponent x\<close> is the \<open>e\<close> with
  \<open>2\<^sup>e \<le> x < 2\<^sup>e\<^sup>+\<^sup>1\<close>, found from the bit lengths of numerator and denominator. The unit in
  the last place is \<open>2\<^sup>e\<^sup>-\<^sup>5\<^sup>2\<close> for a normal number, \<open>e \<ge> -1022\<close>, and \<open>2\<^sup>-\<^sup>1\<^sup>0\<^sup>7\<^sup>4\<close> below
  that: the subnormal numbers are the multiples of \<^verbatim>\<open>Number.MIN_VALUE\<close>, and a result of
  less than half of it is 0. A double is a number that the rounding leaves as it is and
  whose magnitude is below \<open>2\<^sup>1\<^sup>0\<^sup>2\<^sup>4\<close>. Beyond the largest double the code has
  \<^verbatim>\<open>Infinity\<close>, which is no number of this model; the operations rounded here are a
  difference of non-negative timestamps, quotients by a number of at least 1, and means
  and midpoints of coordinates, whose results stay in the range of their operands.
\<close>

definition roundHalfEven :: "rat \<Rightarrow> int" where
  "roundHalfEven x =
     (let n = \<lfloor>x\<rfloor>; d = x - of_int n
      in if d < 1 / 2 then n else if d > 1 / 2 then n + 1 else if even n then n else n + 1)"

definition exponent :: "rat \<Rightarrow> int" where
  "exponent x =
     (case quotient_of x of (p, q) \<Rightarrow>
        let d = bitlen p - bitlen q in if 2 powi d \<le> x then d else d - 1)"

definition ulp :: "rat \<Rightarrow> rat" where
  "ulp x = 2 powi (max (exponent x) (- 1022) - 52)"

definition roundPositive :: "rat \<Rightarrow> rat" where
  "roundPositive x = of_int (roundHalfEven (x / ulp x)) * ulp x"

definition round64 :: "rat \<Rightarrow> rat" where
  "round64 x = (if x = 0 then 0 else if x > 0 then roundPositive x else - roundPositive (- x))"

definition MIN_VALUE :: rat where
  "MIN_VALUE = 2 powi (- 1074)"

definition isDouble :: "rat \<Rightarrow> bool" where
  "isDouble x \<longleftrightarrow> round64 x = x \<and> \<bar>x\<bar> < 2 ^ 1024"

subsection \<open>\<^verbatim>\<open>updateGameState\<close>\<close>

text \<open>The object pushed by step 1; \<open>1.6\<close> is the rational \<open>8/5\<close>.\<close>

definition newEnemy :: "frame \<Rightarrow> rat \<Rightarrow> rat \<Rightarrow> Enemy" where
  "newEnemy f width height =
     (let size = 80 + randomSize f * 40 in
      \<lparr> enemy_id = newId (randomId f),
        enemy_x = randomX f * (width - size),
        enemy_y = randomY f * (height - size),
        enemy_width = size,
        enemy_height = size * (8 / 5),
        hp = 3,
        maxHp = 3,
        spawnTime = timestamp f,
        lastHitTime = 0,
        isHit = False \<rparr>)"

definition spawnDue :: "frame \<Rightarrow> state \<Rightarrow> bool" where
  "spawnDue f s \<longleftrightarrow> timestamp f - lastSpawnTimeRef s > ENEMY_SPAWN_RATE_MS"

definition spawning :: "frame \<Rightarrow> rat \<Rightarrow> rat \<Rightarrow> state \<Rightarrow> state" where
  "spawning f width height s =
     (if spawnDue f s
      then s\<lparr> enemiesRef := enemiesRef s @ [newEnemy f width height],
              enemiesSpawnedRef := enemiesSpawnedRef s + 1,
              lastSpawnTimeRef := timestamp f \<rparr>
      else s)"

text \<open>Step 4: the hit flash is cleared, then dead and expired enemies are filtered out.\<close>

definition clearFlash :: "rat \<Rightarrow> Enemy \<Rightarrow> Enemy" where
  "clearFlash ts e = (if isHit e \<and> ts - lastHitTime e > 100 then e\<lparr>isHit := False\<rparr> else e)"

definition isDead :: "Enemy \<Rightarrow> bool" where
  "isDead e \<longleftrightarrow> hp e \<le> 0"

definition isExpired :: "rat \<Rightarrow> Enemy \<Rightarrow> bool" where
  "isExpired ts e \<longleftrightarrow> ts - spawnTime e > ENEMY_LIFESPAN_MS"

definition keeps :: "rat \<Rightarrow> Enemy \<Rightarrow> bool" where
  "keeps ts e \<longleftrightarrow> \<not> isDead e \<and> \<not> isExpired ts e"

definition updateEnemies :: "rat \<Rightarrow> state \<Rightarrow> state" where
  "updateEnemies ts s = s\<lparr>enemiesRef := filter (keeps ts) (map (clearFlash ts) (enemiesRef s))\<rparr>"

text \<open>
  The clock: \<^verbatim>\<open>(timestamp - gameStartTimeRef.current) / 1000\<close>, then
  \<^verbatim>\<open>Math.max(0, GAME_DURATION_SEC - elapsed)\<close>; each of the three operations is rounded.
\<close>

definition elapsed :: "rat \<Rightarrow> state \<Rightarrow> rat" where
  "elapsed ts s = round64 (round64 (ts - gameStartTimeRef s) / 1000)"

definition remaining :: "rat \<Rightarrow> state \<Rightarrow> rat" where
  "remaining ts s = max 0 (round64 (GAME_DURATION_SEC - elapsed ts s))"

definition currentStats :: "state \<Rightarrow> GameStats" where
  "currentStats s = \<lparr> score = scoreRef s, headshots = headshotsRef s,
     bodyshots = bodyshotsRef s, enemiesSpawned = enemiesSpawnedRef s,
     enemiesDestroyed = enemiesDestroyedRef s \<rparr>"

text \<open>The time check: the result is the state and the value returned (\<open>True\<close>: continue).\<close>

definition timeCheck :: "rat \<Rightarrow> state \<Rightarrow> state \<times> bool" where
  "timeCheck ts s =
     (let remain = remaining ts s;
          s1 = s\<lparr>timeLeft := remain\<rparr>
      in if remain \<le> 0
         then (s1\<lparr>gameOverCalls := currentStats s1 # gameOverCalls s1\<rparr>, False)
         else (s1, True))"

definition updateGameState :: "frame \<Rightarrow> rat \<Rightarrow> rat \<Rightarrow> state \<Rightarrow> state \<times> bool" where
  "updateGameState f width height s =
     timeCheck (timestamp f) (updateEnemies (timestamp f) (spawning f width height s))"

subsection \<open>\<^verbatim>\<open>detectMotionAndCollisions\<close>\<close>

text \<open>
  The comparison loop. \<open>k\<close> is \<^verbatim>\<open>pixelIdx\<close>; the two arrays have the same length where the
  loop runs. \<^verbatim>\<open>%\<close> on two non-negative numbers is the remainder of the floored quotient.
\<close>

definition absDiff :: "8 word \<Rightarrow> 8 word \<Rightarrow> nat" where
  "absDiff a b = nat \<bar>int (unat a) - int (unat b)\<bar>"

definition moving :: "rgba \<Rightarrow> rgba \<Rightarrow> bool" where
  "moving c p =
     (case (c, p) of ((r, g, b, _), (r', g', b', _)) \<Rightarrow>
        absDiff r r' + absDiff g g' + absDiff b b' > MOTION_THRESHOLD * 3)"

definition jsMod :: "rat \<Rightarrow> rat \<Rightarrow> rat" where
  "jsMod a m = a - m * of_int \<lfloor>a / m\<rfloor>"

definition cell :: "rat \<Rightarrow> nat \<Rightarrow> point" where
  "cell mw k = (jsMod (of_nat k) mw * GRID_SCALE, of_int \<lfloor>of_nat k / mw\<rfloor> * GRID_SCALE)"

fun comparePixels :: "rat \<Rightarrow> nat \<Rightarrow> rgba list \<Rightarrow> rgba list \<Rightarrow> point list" where
  "comparePixels mw k (c # cs) (p # ps) =
     (if moving c p then cell mw k # comparePixels mw (Suc k) cs ps
      else comparePixels mw (Suc k) cs ps)"
| "comparePixels mw k cs ps = []"

text \<open>
  The cursor: the centroid of the active pixels, smoothed against the previous one. The
  coordinates of active pixels are small non-negative integers, so the two sums are
  exact; the two divisions, the products and the sum of the smoothing are rounded.
  \<open>blend\<close> is the expression \<^verbatim>\<open>c * smoothFactor + a * (1 - smoothFactor)\<close> of one axis.
\<close>

definition centroid :: "point list \<Rightarrow> point" where
  "centroid ps = (round64 (sum_list (map fst ps) / of_nat (length ps)),
                  round64 (sum_list (map snd ps) / of_nat (length ps)))"

definition smoothFactor :: rat where
  "smoothFactor = 1 / 2"

definition blend :: "rat \<Rightarrow> rat \<Rightarrow> rat" where
  "blend c a = round64 (round64 (c * smoothFactor) + round64 (a * (1 - smoothFactor)))"

definition smooth :: "point \<Rightarrow> point \<Rightarrow> point" where
  "smooth prev avg = (blend (fst prev) (fst avg), blend (snd prev) (snd avg))"

definition updateCursor :: "point list \<Rightarrow> point option \<Rightarrow> point option" where
  "updateCursor activePixels cur =
     (if length activePixels > 0
      then (case cur of Some prev \<Rightarrow> Some (smooth prev (centroid activePixels))
                      | None \<Rightarrow> Some (centroid activePixels))
      else None)"

text \<open>
  The collision pass. \<open>scanRect\<close> is the inner loop over the active pixels with its two
  accumulators \<^verbatim>\<open>hitsInRect\<close> and \<^verbatim>\<open>hitYSum\<close>; \<open>hitEnemy\<close> is the body of the \<^verbatim>\<open>forEach\<close>
  callback, which mutates the enemy and the counters; \<open>forEachEnemy\<close> is the \<^verbatim>\<open>forEach\<close>.
\<close>

definition inRect :: "Enemy \<Rightarrow> point \<Rightarrow> bool" where
  "inRect e p \<longleftrightarrow>
     fst p \<ge> enemy_x e \<and> fst p \<le> enemy_x e + enemy_width e \<and>
     snd p \<ge> enemy_y e \<and> snd p \<le> enemy_y e + enemy_height e"

fun scanRect :: "Enemy \<Rightarrow> point list \<Rightarrow> nat \<times> rat \<Rightarrow> nat \<times> rat" where
  "scanRect e [] acc = acc"
| "scanRect e (p # ps) (hitsInRect, hitYSum) =
     (if inRect e p then scanRect e ps (hitsInRect + 1, hitYSum + snd p)
      else scanRect e ps (hitsInRect, hitYSum))"

definition coolingDown :: "rat \<Rightarrow> Enemy \<Rightarrow> bool" where
  "coolingDown ts e \<longleftrightarrow> ts - lastHitTime e < 400"

definition headThreshold :: "Enemy \<Rightarrow> rat" where
  "headThreshold e = enemy_y e + enemy_height e * (1 / 4)"

definition markHit :: "rat \<Rightarrow> Enemy \<times> state \<Rightarrow> Enemy \<times> state" where
  "markHit ts es =
     (case es of (e, s) \<Rightarrow>
        let e1 = e\<lparr>lastHitTime := ts, isHit := True\<rparr>;
            s1 = (if hp e1 \<le> 0 then s\<lparr>enemiesDestroyedRef := enemiesDestroyedRef s + 1\<rparr> else s)
        in (e1, s1\<lparr>scoreShown := scoreRef s1\<rparr>))"

definition hitEnemy :: "point list \<Rightarrow> rat \<Rightarrow> Enemy \<Rightarrow> state \<Rightarrow> Enemy \<times> state" where
  "hitEnemy activePixels ts e s =
     (if coolingDown ts e then (e, s)
      else case scanRect e activePixels (0, 0) of (hitsInRect, hitYSum) \<Rightarrow>
        if hitsInRect > HIT_PIXEL_COUNT_THRESHOLD
        then let avgY = hitYSum / of_nat hitsInRect;
                 isHeadshot = avgY < headThreshold e
             in if isHeadshot
                then markHit ts (e\<lparr>hp := 0\<rparr>,
                       s\<lparr>scoreRef := scoreRef s + 3, headshotsRef := headshotsRef s + 1\<rparr>)
                else markHit ts (e\<lparr>hp := hp e - 1\<rparr>,
                       s\<lparr>scoreRef := scoreRef s + 1, bodyshotsRef := bodyshotsRef s + 1\<rparr>)
        else (e, s))"

fun forEachEnemy :: "point list \<Rightarrow> rat \<Rightarrow> Enemy list \<Rightarrow> state \<Rightarrow> Enemy list \<times> state" where
  "forEachEnemy activePixels ts [] s = ([], s)"
| "forEachEnemy activePixels ts (e # es) s =
     (case hitEnemy activePixels ts e s of (e', s') \<Rightarrow>
        case forEachEnemy activePixels ts es s' of (es', s'') \<Rightarrow> (e' # es', s''))"

definition collisionDetection :: "point list \<Rightarrow> rat \<Rightarrow> state \<Rightarrow> state" where
  "collisionDetection activePixels ts s =
     (case forEachEnemy activePixels ts (enemiesRef s) s of (es, s') \<Rightarrow> s'\<lparr>enemiesRef := es\<rparr>)"

text \<open>
  The whole callback. \<^verbatim>\<open>getImageData(0, 0, mw, mh)\<close> truncates its sizes to integers and
  throws \<^verbatim>\<open>IndexSizeError\<close> when one of them is zero; otherwise it returns the frame's
  pixels. On the first frame, and when the stored frame has another length, the frame is
  stored and nothing else happens.
\<close>

definition detectMotionAndCollisions :: "frame \<Rightarrow> rat \<Rightarrow> rat \<Rightarrow> state \<Rightarrow> error + state" where
  "detectMotionAndCollisions f width height s =
     (if \<not> motionCanvasMounted f then Inr s
      else let mw = width / GRID_SCALE; mh = height / GRID_SCALE in
        if \<not> motionContext2d f then Inr s
        else if \<lfloor>mw\<rfloor> \<le> 0 \<or> \<lfloor>mh\<rfloor> \<le> 0 then Inl IndexSizeError
        else let data = imageData f in
          case prevFrameDataRef s of
            None \<Rightarrow> Inr (s\<lparr>prevFrameDataRef := Some data\<rparr>)
          | Some prevData \<Rightarrow>
              if length prevData \<noteq> length data then Inr (s\<lparr>prevFrameDataRef := Some data\<rparr>)
              else let activePixels = comparePixels mw 0 data prevData;
                       s1 = s\<lparr>prevFrameDataRef := Some data\<rparr>;
                       s2 = s1\<lparr>cursorRef := updateCursor activePixels (cursorRef s1)\<rparr>
                   in Inr (collisionDetection activePixels (timestamp f) s2))"

subsection \<open>\<^verbatim>\<open>gameLoop\<close> and a session\<close>

text \<open>
  One animation frame. A start time of 0 counts as not set. The canvas takes the video's
  size when the widths differ. The next frame is requested unless the game logic ran and
  \<^verbatim>\<open>updateGameState\<close> returned false; an exception leaves the callback before the request.
\<close>

definition resizeCanvas :: "frame \<Rightarrow> state \<Rightarrow> state" where
  "resizeCanvas f s =
     (if canvasWidth s \<noteq> videoWidth f
      then s\<lparr>canvasWidth := videoWidth f, canvasHeight := videoHeight f\<rparr> else s)"

definition gameLoop :: "frame \<Rightarrow> state \<Rightarrow> state" where
  "gameLoop f s0 =
     (let s = (if gameStartTimeRef s0 = 0 then s0\<lparr>gameStartTimeRef := timestamp f\<rparr> else s0) in
      if canvasMounted f \<and> videoReady f
      then let s1 = resizeCanvas f s in
        if context2d f
        then case updateGameState f (of_nat (canvasWidth s1)) (of_nat (canvasHeight s1)) s1 of
          (s2, isRunning) \<Rightarrow>
            (case detectMotionAndCollisions f (of_nat (canvasWidth s2)) (of_nat (canvasHeight s2)) s2 of
               Inl err \<Rightarrow> s2\<lparr>frameRequested := False, uncaught := Some err\<rparr>
             | Inr s3 \<Rightarrow> s3\<lparr>frameRequested := isRunning\<rparr>)
        else s1\<lparr>frameRequested := True\<rparr>
      else s\<lparr>frameRequested := True\<rparr>)"

text \<open>
  A session: the browser calls \<^verbatim>\<open>gameLoop\<close> once for every requested frame; when none is
  requested the remaining frames are never delivered.
\<close>

fun run :: "frame list \<Rightarrow> state \<Rightarrow> state" where
  "run [] s = s"
| "run (f # fs) s = (if frameRequested s then run fs (gameLoop f s) else s)"

subsection \<open>Predicates of the statements\<close>

text \<open>The score agrees with the two hit counters.\<close>

definition scoreInv :: "state \<Rightarrow> bool" where
  "scoreInv s \<longleftrightarrow> scoreRef s = 3 * headshotsRef s + bodyshotsRef s"

text \<open>The hit points of a target are within their range; strictly positive after a sweep.\<close>

definition hpInRange :: "Enemy \<Rightarrow> bool" where
  "hpInRange e \<longleftrightarrow> 0 \<le> hp e \<and> hp e \<le> maxHp e"

definition hpPositive :: "Enemy \<Rightarrow> bool" where
  "hpPositive e \<longleftrightarrow> 0 < hp e \<and> hp e \<le> maxHp e"

definition allInRange :: "state \<Rightarrow> bool" where
  "allInRange s \<longleftrightarrow> (\<forall>e \<in> set (enemiesRef s). hpInRange e)"

definition allPositive :: "state \<Rightarrow> bool" where
  "allPositive s \<longleftrightarrow> (\<forall>e \<in> set (enemiesRef s). hpPositive e)"

text \<open>
  The values the callback computes for one enemy, under the names of its local variables:
  the two sums of the inner loop, the mean \<^verbatim>\<open>avgY\<close>, the condition under which the body of
  \<^verbatim>\<open>if (hitsInRect > HIT_PIXEL_COUNT_THRESHOLD)\<close> runs, and \<^verbatim>\<open>isHeadshot\<close>.
\<close>

definition hitsInRect :: "Enemy \<Rightarrow> point list \<Rightarrow> nat" where
  "hitsInRect e ps = fst (scanRect e ps (0, 0))"

definition hitYSum :: "Enemy \<Rightarrow> point list \<Rightarrow> rat" where
  "hitYSum e ps = snd (scanRect e ps (0, 0))"

definition avgY :: "Enemy \<Rightarrow> point list \<Rightarrow> rat" where
  "avgY e ps = hitYSum e ps / of_nat (hitsInRect e ps)"

definition confirmsHit :: "point list \<Rightarrow> rat \<Rightarrow> Enemy \<Rightarrow> bool" where
  "confirmsHit ps ts e \<longleftrightarrow> \<not> coolingDown ts e \<and> hitsInRect e ps > HIT_PIXEL_COUNT_THRESHOLD"

definition isHeadshot :: "point list \<Rightarrow> Enemy \<Rightarrow> bool" where
  "isHeadshot ps e \<longleftrightarrow> avgY e ps < headThreshold e"

text \<open>The enemy as the callback leaves it; the counters play no part in that.\<close>

definition struck :: "point list \<Rightarrow> rat \<Rightarrow> Enemy \<Rightarrow> Enemy" where
  "struck ps ts e = fst (hitEnemy ps ts e initial)"

text \<open>
  The state in which the game logic of a frame starts: the start time is set and the
  canvas has the video's size.
\<close>

definition prepared :: "frame \<Rightarrow> state \<Rightarrow> state" where
  "prepared f s =
     resizeCanvas f (if gameStartTimeRef s = 0 then s\<lparr>gameStartTimeRef := timestamp f\<rparr> else s)"

definition logicRuns :: "frame \<Rightarrow> bool" where
  "logicRuns f \<longleftrightarrow> canvasMounted f \<and> videoReady f \<and> context2d f"

text \<open>
  The parts of a frame whose game logic runs, that is, of a frame that finds the canvas,
  a ready video and a drawing context: the result of \<^verbatim>\<open>updateGameState\<close>, the
  conjunction of the guards of \<^verbatim>\<open>detectMotionAndCollisions\<close> under which the collision pass is
  reached, the active pixels of the frame, and the state the callback then returns.
\<close>

definition updated :: "frame \<Rightarrow> state \<Rightarrow> state \<times> bool" where
  "updated f s =
     updateGameState f (of_nat (canvasWidth (prepared f s))) (of_nat (canvasHeight (prepared f s)))
       (prepared f s)"

definition collisionReached :: "frame \<Rightarrow> state \<Rightarrow> bool" where
  "collisionReached f s \<longleftrightarrow>
     motionCanvasMounted f \<and> motionContext2d f \<and>
     \<lfloor>of_nat (canvasWidth s) / GRID_SCALE\<rfloor> > 0 \<and> \<lfloor>of_nat (canvasHeight s) / GRID_SCALE\<rfloor> > 0 \<and>
     (case prevFrameDataRef s of None \<Rightarrow> False
      | Some prevData \<Rightarrow> length prevData = length (imageData f))"

definition activePixels :: "frame \<Rightarrow> state \<Rightarrow> point list" where
  "activePixels f s =
     (case prevFrameDataRef s of None \<Rightarrow> []
      | Some prevData \<Rightarrow>
          comparePixels (of_nat (canvasWidth s) / GRID_SCALE) 0 (imageData f) prevData)"

definition collided :: "frame \<Rightarrow> state \<Rightarrow> state" where
  "collided f s =
     collisionDetection (activePixels f s) (timestamp f)
       (s\<lparr>prevFrameDataRef := Some (imageData f),
          cursorRef := updateCursor (activePixels f s) (cursorRef s)\<rparr>)"

text \<open>
  The two other ways through \<^verbatim>\<open>detectMotionAndCollisions\<close>: \<^verbatim>\<open>getImageData\<close> throws, or the
  callback returns before the collision pass, having stored the frame if it got as far.
\<close>

definition imageDataThrows :: "frame \<Rightarrow> state \<Rightarrow> bool" where
  "imageDataThrows f s \<longleftrightarrow>
     motionCanvasMounted f \<and> motionContext2d f \<and>
     (\<lfloor>of_nat (canvasWidth s) / GRID_SCALE\<rfloor> \<le> 0 \<or> \<lfloor>of_nat (canvasHeight s) / GRID_SCALE\<rfloor> \<le> 0)"

definition stored :: "frame \<Rightarrow> state \<Rightarrow> state" where
  "stored f s =
     (if motionCanvasMounted f \<and> motionContext2d f
      then s\<lparr>prevFrameDataRef := Some (imageData f)\<rparr> else s)"

text \<open>Between two numbers, ends included, and strictly between them.\<close>

definition liesBetween :: "rat \<Rightarrow> rat \<Rightarrow> rat \<Rightarrow> bool" where
  "liesBetween a b x \<longleftrightarrow> min a b \<le> x \<and> x \<le> max a b"

definition liesStrictlyBetween :: "rat \<Rightarrow> rat \<Rightarrow> rat \<Rightarrow> bool" where
  "liesStrictlyBetween a b x \<longleftrightarrow> min a b < x \<and> x < max a b"

subsection \<open>One target through a session\<close>

text \<open>
  A target is touched once per frame whose game logic runs: step 4 clears its flash and
  keeps or drops it, and the collision callback may hit it. Such a frame is given by its
  timestamp and its active pixels; a frame whose collision pass is not reached leaves the
  target as a frame without active pixels does. \<open>survivor\<close> is the target after the
  frames, if it is still in the list; \<open>hitTimes\<close> are the timestamps of the hits it
  took; \<open>life\<close> threads the counters through the callback's calls on this target.
\<close>

fun survivor :: "(rat \<times> point list) list \<Rightarrow> Enemy \<Rightarrow> Enemy option" where
  "survivor [] e = Some e"
| "survivor ((ts, ps) # frames) e =
     (if keeps ts (clearFlash ts e) then survivor frames (struck ps ts (clearFlash ts e))
      else None)"

fun hitTimes :: "(rat \<times> point list) list \<Rightarrow> Enemy \<Rightarrow> rat list" where
  "hitTimes [] e = []"
| "hitTimes ((ts, ps) # frames) e =
     (if keeps ts (clearFlash ts e)
      then (if confirmsHit ps ts (clearFlash ts e) then [ts] else [])
           @ hitTimes frames (struck ps ts (clearFlash ts e))
      else [])"

fun life :: "(rat \<times> point list) list \<Rightarrow> Enemy \<Rightarrow> state \<Rightarrow> state" where
  "life [] e s = s"
| "life ((ts, ps) # frames) e s =
     (if keeps ts (clearFlash ts e)
      then (case hitEnemy ps ts (clearFlash ts e) s of (e', s') \<Rightarrow> life frames e' s')
      else s)"

subsection \<open>A recorded session\<close>

text \<open>
  A 64 by 32 video, so that an analysis frame has 8 by 4 samples. The first frame arrives
  2 seconds after page load and is black; the tab then stays in the background and the
  next frame arrives a minute later, white. A third frame, used on its own, arrives at 4
  seconds and is black again. The draws give a target of size 100 at the origin.
\<close>

definition black :: rgba where
  "black = (0, 0, 0, 255)"

definition white :: rgba where
  "white = (255, 255, 255, 255)"

definition frame_at_2s :: frame where
  "frame_at_2s = \<lparr> timestamp = 2000, canvasMounted = True, videoReady = True,
     videoWidth = 64, videoHeight = 32, context2d = True, motionCanvasMounted = True,
     motionContext2d = True, imageData = replicate 32 black,
     randomSize = 1 / 2, randomId = 1 / 2, randomX = 0, randomY = 0 \<rparr>"

definition frame_at_4s :: frame where
  "frame_at_4s = frame_at_2s\<lparr>timestamp := 4000\<rparr>"

definition frame_at_62s :: frame where
  "frame_at_62s = \<lparr> timestamp = 62000, canvasMounted = True, videoReady = True,
     videoWidth = 64, videoHeight = 32, context2d = True, motionCanvasMounted = True,
     motionContext2d = True, imageData = replicate 32 white,
     randomSize = 1 / 2, randomId = 1 / 4, randomX = 0, randomY = 0 \<rparr>"

text \<open>The target those draws create, and the states after the frames.\<close>

definition target :: "string \<Rightarrow> rat \<Rightarrow> Enemy" where
  "target i ts = \<lparr> enemy_id = i, enemy_x = 0, enemy_y = 0, enemy_width = 100,
     enemy_height = 160, hp = 3, maxHp = 3, spawnTime = ts, lastHitTime = 0, isHit = False \<rparr>"

definition state_at_2s :: state where
  "state_at_2s = \<lparr> scoreRef = 0, headshotsRef = 0, bodyshotsRef = 0, enemiesDestroyedRef = 0,
     enemiesSpawnedRef = 1, enemiesRef = [target ''i'' 2000],
     lastSpawnTimeRef = 2000, gameStartTimeRef = 2000,
     prevFrameDataRef = Some (replicate 32 black), cursorRef = None, timeLeft = 60,
     scoreShown = 0, canvasWidth = 64, canvasHeight = 32, gameOverCalls = [],
     frameRequested = True, uncaught = None \<rparr>"


definition state_at_62s :: state where
  "state_at_62s = \<lparr> scoreRef = 3, headshotsRef = 1, bodyshotsRef = 0, enemiesDestroyedRef = 1,
     enemiesSpawnedRef = 2,
     enemiesRef = [(target ''9'' 62000)\<lparr>hp := 0, lastHitTime := 62000, isHit := True\<rparr>],
     lastSpawnTimeRef = 62000, gameStartTimeRef = 2000,
     prevFrameDataRef = Some (replicate 32 white), cursorRef = Some (28, 12), timeLeft = 0,
     scoreShown = 3, canvasWidth = 64, canvasHeight = 32,
     gameOverCalls = [\<lparr> score = 0, headshots = 0, bodyshots = 0, enemiesSpawned = 2,
       enemiesDestroyed = 0 \<rparr>],
     frameRequested = False, uncaught = None \<rparr>"

text \<open>
  Active pixels inside that target, on the analysis grid: 26 in its top two rows, 26 in
  two rows of its body, and 26 whose mean height is the head threshold 40.
\<close>

definition gridRows :: "rat list \<Rightarrow> point list" where
  "gridRows ys = concat (map (\<lambda>y. map (\<lambda>k. (of_nat k * 8, y)) [0..<13]) ys)"

definition headPixels :: "point list" where
  "headPixels = gridRows [0, 8]"

definition bodyPixels :: "point list" where
  "bodyPixels = gridRows [80, 88]"

definition edgePixels :: "point list" where
  "edgePixels = gridRows [32, 48]"

text \<open>The target after one bodyshot at 2000 ms.\<close>

definition grazed :: Enemy where
  "grazed = (target ''i'' 2000)\<lparr>hp := 2, lastHitTime := 2000, isHit := True\<rparr>"


definition vga_frame :: frame where
  "vga_frame = \<lparr> timestamp = 2000, canvasMounted = True, videoReady = True,
     videoWidth = 640, videoHeight = 480, context2d = True, motionCanvasMounted = True,
     motionContext2d = True, imageData = replicate 4800 black,
     randomSize = 1 / 2, randomId = 1 / 2, randomX = 1 / 2, randomY = 7 / 8 \<rparr>"


section \<open>Properties\<close>

subsection \<open>Reasoning about a frame and a session\<close>

lemma run_induct:
  assumes "P s" and "\<And>f s. P s \<Longrightarrow> P (gameLoop f s)"
  shows "P (run fs s)"
  using assms(1) by (induction fs arbitrary: s) (auto intro: assms(2))

lemma gameLoop_rule:
  assumes P: "P s"
    and start: "\<And>s t. P s \<Longrightarrow> P (s\<lparr>gameStartTimeRef := t\<rparr>)"
    and resize: "\<And>s. P s \<Longrightarrow> P (resizeCanvas f s)"
    and update: "\<And>s w h. P s \<Longrightarrow> Q (fst (updateGameState f w h s))"
    and detect: "\<And>s w h s'. Q s \<Longrightarrow> detectMotionAndCollisions f w h s = Inr s' \<Longrightarrow> P s'"
    and thrown: "\<And>s. Q s \<Longrightarrow> P s"
    and request: "\<And>s b. P s \<Longrightarrow> P (s\<lparr>frameRequested := b\<rparr>)"
    and uncaught: "\<And>s e. P s \<Longrightarrow> P (s\<lparr>uncaught := e\<rparr>)"
  shows "P (gameLoop f s)"
proof -
  define sa where "sa = (if gameStartTimeRef s = 0 then s\<lparr>gameStartTimeRef := timestamp f\<rparr> else s)"
  have Pa: "P sa"
    unfolding sa_def using P start by simp
  define sb where "sb = resizeCanvas f sa"
  have Pb: "P sb"
    unfolding sb_def using Pa resize by simp
  define u where "u = updateGameState f (of_nat (canvasWidth sb)) (of_nat (canvasHeight sb)) sb"
  have Qu: "Q (fst u)"
    unfolding u_def using Pb update by simp
  define d where "d = detectMotionAndCollisions f (of_nat (canvasWidth (fst u))) (of_nat (canvasHeight (fst u))) (fst u)"
  have loop: "gameLoop f s =
     (if canvasMounted f \<and> videoReady f
      then if context2d f
        then (case d of Inl err \<Rightarrow> (fst u)\<lparr>frameRequested := False, uncaught := Some err\<rparr>
                      | Inr s3 \<Rightarrow> s3\<lparr>frameRequested := snd u\<rparr>)
        else sb\<lparr>frameRequested := True\<rparr>
      else sa\<lparr>frameRequested := True\<rparr>)"
    unfolding gameLoop_def d_def u_def sb_def sa_def
    by (simp add: Let_def case_prod_unfold)
  show ?thesis
  proof (cases d)
    case (Inl err)
    then show ?thesis
      unfolding loop using Pa Pb Qu thrown request uncaught by simp
  next
    case (Inr s3)
    then have "P s3"
      using Qu detect unfolding d_def by blast
    then show ?thesis
      unfolding loop using Inr Pa Pb request by simp
  qed
qed

lemma scanRect_filter:
  "scanRect e ps (n, y) =
     (n + length (filter (inRect e) ps), y + sum_list (map snd (filter (inRect e) ps)))"
  by (induction ps arbitrary: n y) auto

lemma hitEnemy_scoreInv:
  "scoreInv s \<Longrightarrow> scoreInv (snd (hitEnemy ps ts e s))"
  by (simp add: hitEnemy_def markHit_def scoreInv_def Let_def case_prod_unfold)

lemma forEachEnemy_scoreInv:
  "scoreInv s \<Longrightarrow> scoreInv (snd (forEachEnemy ps ts es s))"
proof (induction es arbitrary: s)
  case Nil
  then show ?case by simp
next
  case (Cons e es)
  from Cons.prems have "scoreInv (snd (hitEnemy ps ts e s))"
    by (rule hitEnemy_scoreInv)
  from Cons.IH [OF this] show ?case
    by (simp add: case_prod_unfold)
qed

lemma collisionDetection_scoreInv:
  "scoreInv s \<Longrightarrow> scoreInv (collisionDetection ps ts s)"
  using forEachEnemy_scoreInv [of s ps ts "enemiesRef s"]
  by (simp add: collisionDetection_def scoreInv_def case_prod_unfold)

lemma detect_scoreInv:
  assumes "scoreInv s" and "detectMotionAndCollisions f w h s = Inr s'"
  shows "scoreInv s'"
proof -
  have upd: "\<And>d c. scoreInv (s\<lparr>prevFrameDataRef := d, cursorRef := c\<rparr>)"
       "\<And>d. scoreInv (s\<lparr>prevFrameDataRef := d\<rparr>)"
    using assms(1) by (simp_all add: scoreInv_def)
  show ?thesis
    using assms upd collisionDetection_scoreInv
    by (auto simp: detectMotionAndCollisions_def Let_def split: if_splits option.splits)
qed

lemma updateGameState_scoreInv:
  "scoreInv s \<Longrightarrow> scoreInv (fst (updateGameState f w h s))"
  by (simp add: updateGameState_def timeCheck_def updateEnemies_def spawning_def scoreInv_def Let_def)

lemma gameLoop_scoreInv:
  "scoreInv s \<Longrightarrow> scoreInv (gameLoop f s)"
proof (rule gameLoop_rule [where P = scoreInv and Q = scoreInv])
  show "\<And>s w h s'. scoreInv s \<Longrightarrow> detectMotionAndCollisions f w h s = Inr s' \<Longrightarrow> scoreInv s'"
    by (rule detect_scoreInv)
qed (simp_all add: updateGameState_scoreInv, simp_all add: scoreInv_def resizeCanvas_def)

text \<open>
  Claim C10. In every state a session reaches, the score is three times the headshot
  counter plus the bodyshot counter: the three counters start at 0 and only the collision
  callback changes them, by 3 and 1 headshot or by 1 and 1 bodyshot.
\<close>

theorem score_is_weighted_hit_count:
  "scoreRef (run fs initial) = 3 * headshotsRef (run fs initial) + 1 * bodyshotsRef (run fs initial)"
proof -
  have "scoreInv initial"
    by (simp add: scoreInv_def initial_def)
  then have "scoreInv (run fs initial)"
    by (rule run_induct) (rule gameLoop_scoreInv)
  then show ?thesis
    by (simp add: scoreInv_def)
qed

subsection \<open>What a frame does to the list of enemies\<close>

lemma hitEnemy_fst_any_state:
  "fst (hitEnemy ps ts e s) = fst (hitEnemy ps ts e s')"
  by (simp add: hitEnemy_def markHit_def Let_def case_prod_unfold)

lemma forEachEnemy_fst_map:
  "fst (forEachEnemy ps ts es s) = map (\<lambda>e. fst (hitEnemy ps ts e s0)) es"
proof (induction es arbitrary: s)
  case Nil
  show ?case by simp
next
  case (Cons e es)
  have "fst (hitEnemy ps ts e s) = fst (hitEnemy ps ts e s0)"
    by (rule hitEnemy_fst_any_state)
  with Cons.IH show ?case
    by (simp add: case_prod_unfold)
qed

lemma forEachEnemy_snd_enemiesRef:
  "enemiesRef (snd (forEachEnemy ps ts es s)) = enemiesRef s"
proof (induction es arbitrary: s)
  case Nil
  show ?case by simp
next
  case (Cons e es)
  have "enemiesRef (snd (hitEnemy ps ts e s)) = enemiesRef s"
    by (simp add: hitEnemy_def markHit_def Let_def case_prod_unfold)
  with Cons.IH show ?case
    by (simp add: case_prod_unfold)
qed

lemma collisionDetection_enemiesRef:
  "enemiesRef (collisionDetection ps ts s) = map (struck ps ts) (enemiesRef s)"
  by (simp add: collisionDetection_def case_prod_unfold struck_def
      forEachEnemy_fst_map [where ?s0.0 = initial])

lemma detect_Inr_cases:
  assumes "detectMotionAndCollisions f w h s = Inr s'"
  obtains (skipped) "s' = s"
    | (stored) d where "s' = s\<lparr>prevFrameDataRef := Some d\<rparr>"
    | (collided) ps d c where
        "s' = collisionDetection ps (timestamp f) (s\<lparr>prevFrameDataRef := Some d, cursorRef := c\<rparr>)"
proof (cases "prevFrameDataRef s")
  case None
  with assms have "s' = s \<or> s' = s\<lparr>prevFrameDataRef := Some (imageData f)\<rparr>"
    by (simp add: detectMotionAndCollisions_def Let_def split: if_splits)
  with skipped stored show thesis by blast
next
  case (Some prevData)
  let ?ps = "comparePixels (w / GRID_SCALE) 0 (imageData f) prevData"
  let ?c = "updateCursor ?ps (cursorRef s)"
  from assms Some have "s' = s \<or> s' = s\<lparr>prevFrameDataRef := Some (imageData f)\<rparr> \<or>
     s' = collisionDetection ?ps (timestamp f) (s\<lparr>prevFrameDataRef := Some (imageData f), cursorRef := ?c\<rparr>)"
    by (simp add: detectMotionAndCollisions_def Let_def split: if_splits)
  with skipped stored collided show thesis by blast
qed

lemma struck_nothing: "struck [] ts e = e"
  by (simp add: struck_def hitEnemy_def)

lemma map_struck_nothing: "map (struck [] ts) es = es"
  by (induction es) (simp_all add: struck_nothing)

lemma detect_enemiesRef:
  assumes "detectMotionAndCollisions f w h s = Inr s'"
  shows "\<exists>ps. enemiesRef s' = map (struck ps (timestamp f)) (enemiesRef s)"
  using assms
proof (cases rule: detect_Inr_cases)
  case skipped
  then have "enemiesRef s' = map (struck [] (timestamp f)) (enemiesRef s)"
    by (simp add: map_struck_nothing)
  then show ?thesis ..
next
  case (stored d)
  then have "enemiesRef s' = map (struck [] (timestamp f)) (enemiesRef s)"
    by (simp add: map_struck_nothing)
  then show ?thesis ..
next
  case (collided ps d c)
  then have "enemiesRef s' = map (struck ps (timestamp f)) (enemiesRef s)"
    by (simp add: collisionDetection_enemiesRef)
  then show ?thesis ..
qed

lemma struck_hpInRange:
  "hpPositive e \<Longrightarrow> hpInRange (struck ps ts e)"
  by (simp add: struck_def hitEnemy_def markHit_def hpPositive_def hpInRange_def Let_def
      case_prod_unfold)

lemma updateGameState_enemiesRef:
  "enemiesRef (fst (updateGameState f w h s)) =
     filter (keeps (timestamp f)) (map (clearFlash (timestamp f)) (enemiesRef (spawning f w h s)))"
  by (simp add: updateGameState_def timeCheck_def updateEnemies_def Let_def)

lemma spawning_enemiesRef:
  "enemiesRef (spawning f w h s) = enemiesRef s @ (if spawnDue f s then [newEnemy f w h] else [])"
  by (simp add: spawning_def)

lemma newEnemy_hp: "hp (newEnemy f w h) = 3" "maxHp (newEnemy f w h) = 3"
  by (simp_all add: newEnemy_def Let_def)

lemma clearFlash_hp: "hp (clearFlash ts e) = hp e" "maxHp (clearFlash ts e) = maxHp e"
  by (simp_all add: clearFlash_def)

lemma updateGameState_positive:
  "allInRange s \<Longrightarrow> allPositive (fst (updateGameState f w h s))"
  unfolding allInRange_def allPositive_def updateGameState_enemiesRef spawning_enemiesRef
  by (auto simp: keeps_def isDead_def hpInRange_def hpPositive_def clearFlash_hp newEnemy_hp)

lemma detect_inRange:
  assumes "allPositive s" and "detectMotionAndCollisions f w h s = Inr s'"
  shows "allInRange s'"
  using detect_enemiesRef [OF assms(2)] assms(1)
  unfolding allInRange_def allPositive_def
  by (auto simp: struck_hpInRange)

lemma gameLoop_inRange:
  "allInRange s \<Longrightarrow> allInRange (gameLoop f s)"
proof (rule gameLoop_rule [where P = allInRange and Q = allPositive])
  show "\<And>s w h s'. allPositive s \<Longrightarrow> detectMotionAndCollisions f w h s = Inr s' \<Longrightarrow> allInRange s'"
    by (rule detect_inRange)
  show "\<And>s w h. allInRange s \<Longrightarrow> allPositive (fst (updateGameState f w h s))"
    by (rule updateGameState_positive)
  show "\<And>s. allPositive s \<Longrightarrow> allInRange s"
    by (auto simp: allPositive_def allInRange_def hpPositive_def hpInRange_def)
qed (simp_all add: allInRange_def resizeCanvas_def)

lemma run_inRange: "allInRange (run fs initial)"
proof (rule run_induct)
  show "allInRange initial"
    by (simp add: allInRange_def initial_def)
qed (rule gameLoop_inRange)

text \<open>
  Claim C4. In every state a session reaches, every live target has
  \<open>0 \<le> hp \<le> maxHp\<close>. After the sweep of \<^verbatim>\<open>updateGameState\<close> from such a state every
  live target has \<open>hp > 0\<close>: a target whose hp reached 0 is gone before the collision
  pass of that frame, the only code that lowers hp, can touch it again.
\<close>

theorem hp_stays_in_range:
  "(\<forall>e \<in> set (enemiesRef (run fs initial)). 0 \<le> hp e \<and> hp e \<le> maxHp e) \<and>
   (\<forall>e \<in> set (enemiesRef (fst (updateGameState f w h (run fs initial)))). 0 < hp e)"
  using run_inRange [of fs] updateGameState_positive [OF run_inRange, of f w h fs]
  by (simp add: allInRange_def allPositive_def hpInRange_def hpPositive_def)

subsection \<open>The recorded session, evaluated\<close>

lemma gameLoop_at_2s: "gameLoop frame_at_2s initial = state_at_2s"
  by code_simp


lemma gameLoop_at_62s: "gameLoop frame_at_62s state_at_2s = state_at_62s"
  by code_simp

lemma run_to_2s: "run [frame_at_2s] initial = state_at_2s"
proof -
  have "frameRequested initial"
    by (simp add: initial_def)
  then show ?thesis
    by (simp add: gameLoop_at_2s)
qed


lemma run_to_62s: "run [frame_at_2s, frame_at_62s] initial = state_at_62s"
proof -
  have "frameRequested initial" "frameRequested state_at_2s"
    by (simp_all add: initial_def state_at_2s_def)
  then show ?thesis
    by (simp add: gameLoop_at_2s gameLoop_at_62s)
qed

lemma update_at_62s:
  "enemiesRef (fst (updateGameState frame_at_62s 64 32 state_at_2s)) = [target ''9'' 62000]"
  by code_simp

text \<open>
  In the recorded session the target hit on the last frame is left with hp 0, and the
  sweep at 62 seconds leaves only the fresh target, with hp 3.
\<close>

theorem hp_stays_in_range_witness:
  "enemiesRef (run [frame_at_2s, frame_at_62s] initial)
     = [(target ''9'' 62000)\<lparr>hp := 0, lastHitTime := 62000, isHit := True\<rparr>] \<and>
   0 \<le> hp (hd (enemiesRef (run [frame_at_2s, frame_at_62s] initial))) \<and>
   hp (hd (enemiesRef (run [frame_at_2s, frame_at_62s] initial)))
     \<le> maxHp (hd (enemiesRef (run [frame_at_2s, frame_at_62s] initial))) \<and>
   enemiesRef (fst (updateGameState frame_at_62s 64 32 (run [frame_at_2s] initial)))
     = [target ''9'' 62000] \<and>
   0 < hp (hd (enemiesRef (fst (updateGameState frame_at_62s 64 32 (run [frame_at_2s] initial)))))"
proof -
  let ?s = "run [frame_at_2s, frame_at_62s] initial"
  let ?u = "fst (updateGameState frame_at_62s 64 32 (run [frame_at_2s] initial))"
  have live: "enemiesRef ?s = [(target ''9'' 62000)\<lparr>hp := 0, lastHitTime := 62000, isHit := True\<rparr>]"
    unfolding run_to_62s by (simp add: state_at_62s_def)
  have swept: "enemiesRef ?u = [target ''9'' 62000]"
    unfolding run_to_2s by (rule update_at_62s)
  have "hd (enemiesRef ?s) \<in> set (enemiesRef ?s)" "hd (enemiesRef ?u) \<in> set (enemiesRef ?u)"
    unfolding live swept by simp_all
  with hp_stays_in_range [of "[frame_at_2s, frame_at_62s]" frame_at_62s 64 32]
    hp_stays_in_range [of "[frame_at_2s]" frame_at_62s 64 32]
  have "0 \<le> hp (hd (enemiesRef ?s)) \<and> hp (hd (enemiesRef ?s)) \<le> maxHp (hd (enemiesRef ?s))"
    "0 < hp (hd (enemiesRef ?u))"
    by blast+
  with live swept show ?thesis
    by blast
qed

subsection \<open>The collision callback\<close>

lemma hitEnemy_branches:
  "hitEnemy ps ts e s =
     (if confirmsHit ps ts e
      then if isHeadshot ps e
        then markHit ts (e\<lparr>hp := 0\<rparr>,
               s\<lparr>scoreRef := scoreRef s + 3, headshotsRef := headshotsRef s + 1\<rparr>)
        else markHit ts (e\<lparr>hp := hp e - 1\<rparr>,
               s\<lparr>scoreRef := scoreRef s + 1, bodyshotsRef := bodyshotsRef s + 1\<rparr>)
      else (e, s))"
  by (simp add: hitEnemy_def confirmsHit_def isHeadshot_def avgY_def hitsInRect_def
      hitYSum_def Let_def case_prod_unfold)

lemma hitEnemy_miss:
  "\<not> confirmsHit ps ts e \<Longrightarrow> hitEnemy ps ts e s = (e, s)"
  by (simp add: hitEnemy_branches)

lemma hitEnemy_headshot:
  assumes "confirmsHit ps ts e" and "isHeadshot ps e"
  shows "hitEnemy ps ts e s =
     (e\<lparr>hp := 0, lastHitTime := ts, isHit := True\<rparr>,
      s\<lparr>scoreRef := scoreRef s + 3, headshotsRef := headshotsRef s + 1,
        enemiesDestroyedRef := enemiesDestroyedRef s + 1, scoreShown := scoreRef s + 3\<rparr>)"
  using assms by (simp add: hitEnemy_branches markHit_def)

lemma hitEnemy_bodyshot:
  assumes "confirmsHit ps ts e" and "\<not> isHeadshot ps e"
  shows "hitEnemy ps ts e s =
     (e\<lparr>hp := hp e - 1, lastHitTime := ts, isHit := True\<rparr>,
      (if hp e \<le> 1
       then s\<lparr>scoreRef := scoreRef s + 1, bodyshotsRef := bodyshotsRef s + 1,
              enemiesDestroyedRef := enemiesDestroyedRef s + 1\<rparr>
       else s\<lparr>scoreRef := scoreRef s + 1, bodyshotsRef := bodyshotsRef s + 1\<rparr>)
      \<lparr>scoreShown := scoreRef s + 1\<rparr>)"
  using assms by (simp add: hitEnemy_branches markHit_def)

lemma struck_eq: "struck ps ts e = fst (hitEnemy ps ts e s)"
  unfolding struck_def by (rule hitEnemy_fst_any_state)

lemma struck_miss: "\<not> confirmsHit ps ts e \<Longrightarrow> struck ps ts e = e"
  by (simp add: struck_def hitEnemy_miss)

lemma struck_hit_time: "confirmsHit ps ts e \<Longrightarrow> lastHitTime (struck ps ts e) = ts"
  by (simp add: struck_def hitEnemy_branches markHit_def)

lemma confirmsHit_cooled: "confirmsHit ps ts e \<Longrightarrow> ts - lastHitTime e \<ge> 400"
  by (simp add: confirmsHit_def coolingDown_def)

lemma clearFlash_lastHitTime: "lastHitTime (clearFlash ts e) = lastHitTime e"
  by (simp add: clearFlash_def)

text \<open>
  Claim C6. When a hit is confirmed and the mean height \<^verbatim>\<open>avgY\<close> of the active pixels inside
  the box is exactly \<^verbatim>\<open>enemy.y + enemy.height * 0.25\<close>, the hit is a bodyshot: the comparison
  with the head threshold is strict. The target loses one hp, the score and the bodyshot
  counter grow by 1 and the headshot counter stays.
\<close>

theorem boundary_centroid_is_bodyshot:
  assumes "confirmsHit ps ts e"
    and "avgY e ps = enemy_y e + enemy_height e * (1 / 4)"
  shows "\<not> isHeadshot ps e \<and>
    hp (fst (hitEnemy ps ts e s)) = hp e - 1 \<and>
    scoreRef (snd (hitEnemy ps ts e s)) = scoreRef s + 1 \<and>
    bodyshotsRef (snd (hitEnemy ps ts e s)) = bodyshotsRef s + 1 \<and>
    headshotsRef (snd (hitEnemy ps ts e s)) = headshotsRef s"
proof -
  from assms(2) have body: "\<not> isHeadshot ps e"
    by (simp add: isHeadshot_def headThreshold_def)
  with assms(1) show ?thesis
    by (simp add: hitEnemy_bodyshot)
qed

text \<open>26 pixels of mean height 40 on the target of height 160 at the origin.\<close>

lemma edgePixels_on_target:
  "confirmsHit edgePixels 2000 (target ''i'' 2000)"
  "avgY (target ''i'' 2000) edgePixels = 40"
  "enemy_y (target ''i'' 2000) + enemy_height (target ''i'' 2000) * (1 / 4) = 40"
  by code_simp+

theorem boundary_centroid_is_bodyshot_witness:
  "confirmsHit edgePixels 2000 (target ''i'' 2000) \<and>
   avgY (target ''i'' 2000) edgePixels = 40 \<and>
   enemy_y (target ''i'' 2000) + enemy_height (target ''i'' 2000) * (1 / 4) = 40 \<and>
   \<not> isHeadshot edgePixels (target ''i'' 2000) \<and>
   hp (fst (hitEnemy edgePixels 2000 (target ''i'' 2000) initial)) = 2 \<and>
   bodyshotsRef (snd (hitEnemy edgePixels 2000 (target ''i'' 2000) initial)) = 1"
proof -
  have "hp (target ''i'' 2000) = 3" "bodyshotsRef initial = 0"
    by (simp_all add: target_def initial_def)
  with boundary_centroid_is_bodyshot [of edgePixels 2000 "target ''i'' 2000" initial]
    edgePixels_on_target
  show ?thesis
    by simp
qed

subsection \<open>Hits and counters along the life of one target\<close>

lemma hitTimes_after_last_hit:
  "t \<in> set (hitTimes frames e) \<Longrightarrow> t - lastHitTime e \<ge> 400"
proof (induction frames arbitrary: e)
  case Nil
  then show ?case by simp
next
  case (Cons fr frames)
  obtain ts ps where fr: "fr = (ts, ps)"
    by (cases fr)
  let ?e = "clearFlash ts e"
  from Cons.prems fr have kept: "keeps ts ?e"
    by (auto split: if_splits)
  show ?case
  proof (cases "confirmsHit ps ts ?e")
    case True
    then have now: "ts - lastHitTime e \<ge> 400"
      using confirmsHit_cooled [of ps ts ?e] by (simp add: clearFlash_lastHitTime)
    from Cons.prems fr kept True
    consider "t = ts" | "t \<in> set (hitTimes frames (struck ps ts ?e))"
      by auto
    then show ?thesis
    proof cases
      case 1
      with now show ?thesis by simp
    next
      case 2
      from Cons.IH [OF 2] True have "t - ts \<ge> 400"
        by (simp add: struck_hit_time)
      with now show ?thesis by simp
    qed
  next
    case False
    with Cons.prems fr kept have "t \<in> set (hitTimes frames ?e)"
      by (simp add: struck_miss)
    from Cons.IH [OF this] show ?thesis
      by (simp add: clearFlash_lastHitTime)
  qed
qed

lemma hitTimes_spaced:
  "sorted_wrt (\<lambda>t1 t2. t2 - t1 \<ge> 400) (hitTimes frames e)"
proof (induction frames arbitrary: e)
  case Nil
  show ?case by simp
next
  case (Cons fr frames)
  obtain ts ps where fr: "fr = (ts, ps)"
    by (cases fr)
  let ?e = "clearFlash ts e"
  show ?case
  proof (cases "keeps ts ?e \<and> confirmsHit ps ts ?e")
    case True
    have "\<forall>t \<in> set (hitTimes frames (struck ps ts ?e)). t - ts \<ge> 400"
      using hitTimes_after_last_hit [of _ frames "struck ps ts ?e"] True
      by (simp add: struck_hit_time)
    with True fr Cons.IH [of "struck ps ts ?e"] show ?thesis
      by simp
  next
    case False
    with fr Cons.IH [of "struck ps ts ?e"] show ?thesis
      by auto
  qed
qed

text \<open>
  Claim C5. Two hits registered on the same target are at least 400 ms apart: in the
  order in which they are registered, and hence for every pair of hit timestamps
  \<open>t1 < t2\<close>, whatever motion the frames carry.
\<close>

theorem hits_on_a_target_are_spaced:
  "(\<forall>i j. i < j \<and> j < length (hitTimes frames e) \<longrightarrow>
      hitTimes frames e ! j - hitTimes frames e ! i \<ge> 400) \<and>
   (\<forall>t1 \<in> set (hitTimes frames e). \<forall>t2 \<in> set (hitTimes frames e).
      t1 < t2 \<longrightarrow> t2 - t1 \<ge> 400)"
proof -
  let ?h = "hitTimes frames e"
  have nth: "?h ! j - ?h ! i \<ge> 400" if "i < j" "j < length ?h" for i j
    using hitTimes_spaced [of frames e] that by (simp add: sorted_wrt_iff_nth_less)
  have "t2 - t1 \<ge> 400" if "t1 \<in> set ?h" "t2 \<in> set ?h" "t1 < t2" for t1 t2
  proof -
    from that obtain i j where ij: "i < length ?h" "?h ! i = t1" "j < length ?h" "?h ! j = t2"
      by (auto simp: in_set_conv_nth)
    consider "i < j" | "j < i" | "i = j"
      by linarith
    then show ?thesis
    proof cases
      case 1
      with nth [of i j] ij show ?thesis by simp
    next
      case 2
      with nth [of j i] ij have "t1 - t2 \<ge> 400" by simp
      with that(3) show ?thesis by simp
    next
      case 3
      with ij that(3) show ?thesis by simp
    qed
  qed
  with nth show ?thesis by blast
qed

text \<open>Body motion at 2000, 2100 and 2400 ms: the second frame falls in the cooldown.\<close>

lemma three_body_frames:
  "hitTimes [(2000, bodyPixels), (2100, bodyPixels), (2400, bodyPixels)] (target ''i'' 2000)
     = [2000, 2400]"
  by code_simp

theorem hits_on_a_target_are_spaced_witness:
  "hitTimes [(2000, bodyPixels), (2100, bodyPixels), (2400, bodyPixels)] (target ''i'' 2000)
     = [2000, 2400] \<and>
   hitTimes [(2000, bodyPixels), (2100, bodyPixels), (2400, bodyPixels)] (target ''i'' 2000) ! 1
     - hitTimes [(2000, bodyPixels), (2100, bodyPixels), (2400, bodyPixels)] (target ''i'' 2000) ! 0
     \<ge> 400"
proof -
  let ?h = "hitTimes [(2000, bodyPixels), (2100, bodyPixels), (2400, bodyPixels)] (target ''i'' 2000)"
  have "(0::nat) < 1 \<and> 1 < length ?h"
    unfolding three_body_frames by simp
  with hits_on_a_target_are_spaced
    [of "[(2000, bodyPixels), (2100, bodyPixels), (2400, bodyPixels)]" "target ''i'' 2000"]
  have "?h ! 1 - ?h ! 0 \<ge> 400"
    by blast
  with three_body_frames show ?thesis
    by blast
qed

lemma dead_not_kept: "hp e \<le> 0 \<Longrightarrow> \<not> keeps ts (clearFlash ts e)"
  by (simp add: keeps_def isDead_def clearFlash_hp)

lemma life_of_dead: "hp e \<le> 0 \<Longrightarrow> life frames e s = s"
proof (cases frames)
  case Nil
  then show ?thesis by simp
next
  case (Cons fr rest)
  assume "hp e \<le> 0"
  with Cons show ?thesis
    by (cases fr) (simp add: dead_not_kept)
qed

lemma survivor_of_dead: "hp e \<le> 0 \<Longrightarrow> survivor (fr # frames) e = None"
  by (cases fr) (simp add: dead_not_kept)

lemma hitEnemy_destroyed:
  "enemiesDestroyedRef (snd (hitEnemy ps ts e s)) =
     enemiesDestroyedRef s + (if confirmsHit ps ts e \<and> hp (struck ps ts e) \<le> 0 then 1 else 0)"
  by (simp add: struck_def hitEnemy_branches markHit_def)

lemma life_append:
  "life (xs @ ys) e s =
     (case survivor xs e of None \<Rightarrow> life xs e s | Some e' \<Rightarrow> life ys e' (life xs e s))"
proof (induction xs arbitrary: e s)
  case Nil
  show ?case by simp
next
  case (Cons fr xs)
  obtain ts ps where fr: "fr = (ts, ps)"
    by (cases fr)
  show ?case
    unfolding fr
    by (simp add: Cons.IH case_prod_unfold struck_eq [where s = s] split: option.splits)
qed

lemma destroyed_while_alive:
  "survivor xs e = Some e1 \<Longrightarrow> 0 < hp e1 \<Longrightarrow>
     enemiesDestroyedRef (life xs e s) = enemiesDestroyedRef s"
proof (induction xs arbitrary: e s)
  case Nil
  show ?case by simp
next
  case (Cons fr xs)
  obtain ts ps where fr: "fr = (ts, ps)"
    by (cases fr)
  let ?e = "clearFlash ts e"
  from Cons.prems(1) fr have kept: "keeps ts ?e"
    and rest: "survivor xs (struck ps ts ?e) = Some e1"
    by (auto split: if_splits)
  have alive: "0 < hp (struck ps ts ?e)"
  proof (rule ccontr)
    assume "\<not> 0 < hp (struck ps ts ?e)"
    then have dead: "hp (struck ps ts ?e) \<le> 0"
      by simp
    show False
    proof (cases xs)
      case Nil
      with rest dead Cons.prems(2) show False by simp
    next
      case (Cons fr' xs')
      with rest survivor_of_dead [OF dead, of fr' xs'] show False by simp
    qed
  qed
  have "enemiesDestroyedRef (snd (hitEnemy ps ts ?e s)) = enemiesDestroyedRef s"
    using alive by (simp add: hitEnemy_destroyed)
  moreover have "enemiesDestroyedRef (life xs (struck ps ts ?e) (snd (hitEnemy ps ts ?e s)))
      = enemiesDestroyedRef (snd (hitEnemy ps ts ?e s))"
    using rest Cons.prems(2) by (rule Cons.IH)
  ultimately show ?case
    using kept fr by (simp add: case_prod_unfold struck_eq [where s = s])
qed

text \<open>
  Claim C7. A target reaches a frame alive and a headshot is confirmed on it there. The
  callback sets its hp to 0 whatever it was, adds 3 to the score and 1 to the headshot
  counter and to the destroyed counter. The sweep of the next frame removes the target,
  and over the whole life of the target the destroyed counter grows by exactly 1.
\<close>

theorem headshot_kills_and_counts_once:
  assumes "survivor before e = Some e1"
    and "keeps ts (clearFlash ts e1)"
    and "confirmsHit ps ts (clearFlash ts e1)"
    and "isHeadshot ps (clearFlash ts e1)"
  shows "hp (fst (hitEnemy ps ts (clearFlash ts e1) s1)) = 0 \<and>
    scoreRef (snd (hitEnemy ps ts (clearFlash ts e1) s1)) = scoreRef s1 + 3 \<and>
    headshotsRef (snd (hitEnemy ps ts (clearFlash ts e1) s1)) = headshotsRef s1 + 1 \<and>
    enemiesDestroyedRef (snd (hitEnemy ps ts (clearFlash ts e1) s1))
      = enemiesDestroyedRef s1 + 1 \<and>
    survivor (before @ (ts, ps) # following # later) e = None \<and>
    enemiesDestroyedRef (life (before @ (ts, ps) # later) e s) = enemiesDestroyedRef s + 1"
proof -
  let ?e = "clearFlash ts e1"
  note shot = hitEnemy_headshot [OF assms(3,4)]
  have now: "hp (fst (hitEnemy ps ts ?e s1)) = 0"
    "scoreRef (snd (hitEnemy ps ts ?e s1)) = scoreRef s1 + 3"
    "headshotsRef (snd (hitEnemy ps ts ?e s1)) = headshotsRef s1 + 1"
    "enemiesDestroyedRef (snd (hitEnemy ps ts ?e s1)) = enemiesDestroyedRef s1 + 1"
    by (simp_all add: shot)
  have dead: "hp (struck ps ts ?e) \<le> 0"
    by (simp add: struck_def shot)
  have alive: "0 < hp e1"
    using assms(2) by (simp add: keeps_def isDead_def clearFlash_hp)
  have gone: "survivor (before @ (ts, ps) # following # later) e = None"
  proof -
    have "survivor (xs @ ys) e0 = (case survivor xs e0 of None \<Rightarrow> None | Some e' \<Rightarrow> survivor ys e')"
      for xs ys e0
      by (induction xs arbitrary: e0) auto
    then show ?thesis
      using assms(1,2) survivor_of_dead [OF dead] by simp
  qed
  let ?s = "life before e s"
  have "enemiesDestroyedRef ?s = enemiesDestroyedRef s"
    using assms(1) alive by (rule destroyed_while_alive)
  moreover have "life ((ts, ps) # later) e1 ?s = snd (hitEnemy ps ts ?e ?s)"
    using assms(2) dead
    by (simp add: case_prod_unfold life_of_dead struck_eq [where s = ?s])
  moreover have "enemiesDestroyedRef (snd (hitEnemy ps ts ?e ?s)) = enemiesDestroyedRef ?s + 1"
    by (simp add: shot)
  ultimately have "enemiesDestroyedRef (life (before @ (ts, ps) # later) e s)
      = enemiesDestroyedRef s + 1"
    using assms(1) by (simp add: life_append)
  with now gone show ?thesis
    by blast
qed

text \<open>A bodyshot at 2000 ms, then a headshot at 2400 ms, then two more frames.\<close>

lemma body_then_head:
  "survivor [(2000, bodyPixels)] (target ''i'' 2000) = Some grazed"
  "keeps 2400 (clearFlash 2400 grazed)"
  "confirmsHit headPixels 2400 (clearFlash 2400 grazed)"
  "isHeadshot headPixels (clearFlash 2400 grazed)"
  by code_simp+

theorem headshot_kills_and_counts_once_witness:
  "survivor [(2000, bodyPixels)] (target ''i'' 2000) = Some grazed \<and>
   keeps 2400 (clearFlash 2400 grazed) \<and>
   confirmsHit headPixels 2400 (clearFlash 2400 grazed) \<and>
   isHeadshot headPixels (clearFlash 2400 grazed) \<and>
   hp (fst (hitEnemy headPixels 2400 (clearFlash 2400 grazed) initial)) = 0 \<and>
   scoreRef (snd (hitEnemy headPixels 2400 (clearFlash 2400 grazed) initial)) = 3 \<and>
   enemiesDestroyedRef
     (life ([(2000, bodyPixels)] @ (2400, headPixels) # [(2416, headPixels), (3000, headPixels)])
        (target ''i'' 2000) initial) = 1"
proof -
  have "scoreRef initial = 0" "enemiesDestroyedRef initial = 0"
    by (simp_all add: initial_def)
  with headshot_kills_and_counts_once [OF body_then_head, where ?s1.0 = initial
      and s = initial and later = "[(2416, headPixels), (3000, headPixels)]"]
    body_then_head
  show ?thesis
    by simp
qed

subsection \<open>The shape of a frame\<close>

lemma gameLoop_logic:
  assumes "logicRuns f"
  shows "gameLoop f s =
    (case detectMotionAndCollisions f (of_nat (canvasWidth (fst (updated f s))))
            (of_nat (canvasHeight (fst (updated f s)))) (fst (updated f s)) of
       Inl err \<Rightarrow> (fst (updated f s))\<lparr>frameRequested := False, uncaught := Some err\<rparr>
     | Inr s3 \<Rightarrow> s3\<lparr>frameRequested := snd (updated f s)\<rparr>)"
  using assms
  by (simp add: gameLoop_def logicRuns_def updated_def prepared_def Let_def case_prod_unfold
      cong: sum.case_cong)


lemma detect_reached:
  assumes "collisionReached f s"
  shows "detectMotionAndCollisions f (of_nat (canvasWidth s)) (of_nat (canvasHeight s)) s
    = Inr (collided f s)"
proof -
  from assms obtain prevData where prev: "prevFrameDataRef s = Some prevData"
    and len: "length prevData = length (imageData f)"
    by (auto simp: collisionReached_def split: option.splits)
  from assms have guards: "motionCanvasMounted f" "motionContext2d f"
    "\<not> \<lfloor>of_nat (canvasWidth s) / GRID_SCALE\<rfloor> \<le> (0::int)"
    "\<not> \<lfloor>of_nat (canvasHeight s) / GRID_SCALE\<rfloor> \<le> (0::int)"
    by (simp_all add: collisionReached_def)
  show ?thesis
    unfolding detectMotionAndCollisions_def collided_def activePixels_def
    using guards by (simp add: prev len Let_def)
qed

lemma updated_fields:
  "gameStartTimeRef (fst (updated f s)) = gameStartTimeRef (prepared f s)"
  "scoreRef (fst (updated f s)) = scoreRef s"
  "headshotsRef (fst (updated f s)) = headshotsRef s"
  "bodyshotsRef (fst (updated f s)) = bodyshotsRef s"
  "enemiesDestroyedRef (fst (updated f s)) = enemiesDestroyedRef s"
  "prevFrameDataRef (fst (updated f s)) = prevFrameDataRef s"
  "canvasWidth (fst (updated f s)) = canvasWidth (prepared f s)"
  "canvasHeight (fst (updated f s)) = canvasHeight (prepared f s)"
  by (simp_all add: updated_def updateGameState_def timeCheck_def updateEnemies_def
      spawning_def prepared_def resizeCanvas_def Let_def)

lemma remaining_nonneg: "0 \<le> remaining ts s"
  by (simp add: remaining_def)

text \<open>
  The clock is the code's: a session started at 5000.1 ms ends on the frame at
  65000.1 ms, where the difference of the two doubles is rounded to 60000, although the
  exact difference of the two doubles is below 60000.
\<close>

lemma rounded_clock:
  "remaining (round64 (650001 / 10)) (initial\<lparr>gameStartTimeRef := round64 (50001 / 10)\<rparr>) = 0"
  "round64 (650001 / 10) - round64 (50001 / 10) < 60000"
  by code_simp+

lemma updated_running:
  "snd (updated f s) \<longleftrightarrow> 0 < remaining (timestamp f) (prepared f s)"
  by (simp add: updated_def updateGameState_def timeCheck_def updateEnemies_def
      spawning_def remaining_def elapsed_def Let_def not_le)

lemma updated_gameOverCalls:
  "gameOverCalls (fst (updated f s)) =
     (if 0 < remaining (timestamp f) (prepared f s) then gameOverCalls s
      else currentStats (fst (updated f s)) # gameOverCalls s)"
  by (simp add: updated_def updateGameState_def timeCheck_def updateEnemies_def
      spawning_def remaining_def elapsed_def currentStats_def prepared_def resizeCanvas_def
      Let_def not_le)

lemma collisionDetection_gameOverCalls:
  "gameOverCalls (collisionDetection ps ts s) = gameOverCalls s"
proof -
  have one: "gameOverCalls (snd (hitEnemy ps ts e s')) = gameOverCalls s'" for e s'
    by (simp add: hitEnemy_branches markHit_def)
  have "gameOverCalls (snd (forEachEnemy ps ts es s')) = gameOverCalls s'" for es s'
    by (induction es arbitrary: s') (simp_all add: case_prod_unfold one)
  then show ?thesis
    by (simp add: collisionDetection_def case_prod_unfold)
qed

lemma run_stopped: "\<not> frameRequested s \<Longrightarrow> run fs s = s"
  by (cases fs) simp_all

text \<open>The three ways through \<^verbatim>\<open>detectMotionAndCollisions\<close>, and the frame they give.\<close>

lemma detect_ways:
  "detectMotionAndCollisions f (of_nat (canvasWidth s)) (of_nat (canvasHeight s)) s =
     (if imageDataThrows f s then Inl IndexSizeError
      else if collisionReached f s then Inr (collided f s)
      else Inr (stored f s))"
proof (cases "collisionReached f s")
  case True
  then have "\<not> imageDataThrows f s"
    by (auto simp: collisionReached_def imageDataThrows_def)
  with True show ?thesis
    by (simp add: detect_reached)
next
  case False
  then show ?thesis
    by (auto simp: detectMotionAndCollisions_def collisionReached_def imageDataThrows_def
        stored_def Let_def not_less split: option.splits)
qed

lemma gameLoop_ways:
  assumes "logicRuns f"
  shows "gameLoop f s =
    (if imageDataThrows f (fst (updated f s))
     then (fst (updated f s))\<lparr>frameRequested := False, uncaught := Some IndexSizeError\<rparr>
     else if collisionReached f (fst (updated f s))
     then (collided f (fst (updated f s)))
            \<lparr>frameRequested := 0 < remaining (timestamp f) (prepared f s)\<rparr>
     else (stored f (fst (updated f s)))
            \<lparr>frameRequested := 0 < remaining (timestamp f) (prepared f s)\<rparr>)"
  by (simp add: gameLoop_logic [OF assms] detect_ways updated_running)

lemma gameLoop_gameOverCalls:
  assumes "logicRuns f"
  shows "gameOverCalls (gameLoop f s) = gameOverCalls (fst (updated f s))"
  by (simp add: gameLoop_ways [OF assms] collided_def stored_def collisionDetection_gameOverCalls)

text \<open>
  Claim C1, as the code has it. On every frame whose game logic runs,
  \<^verbatim>\<open>updateGameState\<close> is followed by \<^verbatim>\<open>detectMotionAndCollisions\<close> whatever the remaining time.
  The collision pass is performed when its own guards pass (motion canvas and context
  present, an analysis size of at least 1 by 1, a stored frame of the same length);
  otherwise \<^verbatim>\<open>getImageData\<close> throws and the callback is left, or the frame is stored at most
  and no pass is made. The next frame is requested exactly when the remaining time is
  positive and \<^verbatim>\<open>getImageData\<close> did not throw. The game-over callback fires on exactly the
  frames whose remaining time is 0, during \<^verbatim>\<open>updateGameState\<close>, with the counters as they
  stood before the collision pass of that frame. Once no frame is requested, no later
  frame is processed.
\<close>

theorem collision_pass_runs_whatever_the_clock:
  assumes "logicRuns f"
  shows "(collisionReached f (fst (updated f s)) \<longrightarrow>
       gameLoop f s = (collided f (fst (updated f s)))
         \<lparr>frameRequested := 0 < remaining (timestamp f) (prepared f s)\<rparr>) \<and>
    (\<not> collisionReached f (fst (updated f s)) \<and> \<not> imageDataThrows f (fst (updated f s)) \<longrightarrow>
       gameLoop f s = (stored f (fst (updated f s)))
         \<lparr>frameRequested := 0 < remaining (timestamp f) (prepared f s)\<rparr>) \<and>
    (imageDataThrows f (fst (updated f s)) \<longrightarrow>
       gameLoop f s =
         (fst (updated f s))\<lparr>frameRequested := False, uncaught := Some IndexSizeError\<rparr>) \<and>
    (frameRequested (gameLoop f s) \<longleftrightarrow>
       0 < remaining (timestamp f) (prepared f s) \<and> \<not> imageDataThrows f (fst (updated f s))) \<and>
    gameOverCalls (gameLoop f s) =
      (if remaining (timestamp f) (prepared f s) = 0
       then currentStats (fst (updated f s)) # gameOverCalls s else gameOverCalls s) \<and>
    score (currentStats (fst (updated f s))) = scoreRef s \<and>
    headshots (currentStats (fst (updated f s))) = headshotsRef s \<and>
    bodyshots (currentStats (fst (updated f s))) = bodyshotsRef s \<and>
    enemiesDestroyed (currentStats (fst (updated f s))) = enemiesDestroyedRef s \<and>
    (\<not> frameRequested (gameLoop f s) \<longrightarrow> run fs (gameLoop f s) = gameLoop f s)"
proof -
  let ?u = "fst (updated f s)"
  let ?left = "remaining (timestamp f) (prepared f s)"
  note ways = gameLoop_ways [OF assms, of s]
  have exclusive: "\<not> imageDataThrows f ?u" if "collisionReached f ?u"
    using that by (auto simp: collisionReached_def imageDataThrows_def)
  have reached: "gameLoop f s = (collided f ?u)\<lparr>frameRequested := 0 < ?left\<rparr>"
    if "collisionReached f ?u"
    using that exclusive by (simp add: ways)
  have skipped: "gameLoop f s = (stored f ?u)\<lparr>frameRequested := 0 < ?left\<rparr>"
    if "\<not> collisionReached f ?u \<and> \<not> imageDataThrows f ?u"
    using that by (simp add: ways)
  have thrown: "gameLoop f s = ?u\<lparr>frameRequested := False, uncaught := Some IndexSizeError\<rparr>"
    if "imageDataThrows f ?u"
    using that by (simp add: ways)
  have request: "frameRequested (gameLoop f s) \<longleftrightarrow> 0 < ?left \<and> \<not> imageDataThrows f ?u"
    by (simp add: ways)
  have "?left = 0 \<longleftrightarrow> \<not> 0 < ?left"
    using remaining_nonneg [of "timestamp f" "prepared f s"] by auto
  then have calls: "gameOverCalls (gameLoop f s) =
      (if ?left = 0 then currentStats ?u # gameOverCalls s else gameOverCalls s)"
    by (simp add: gameLoop_gameOverCalls [OF assms] updated_gameOverCalls)
  have stats: "score (currentStats ?u) = scoreRef s" "headshots (currentStats ?u) = headshotsRef s"
    "bodyshots (currentStats ?u) = bodyshotsRef s"
    "enemiesDestroyed (currentStats ?u) = enemiesDestroyedRef s"
    by (simp_all add: currentStats_def updated_fields)
  have stop: "run fs (gameLoop f s) = gameLoop f s" if "\<not> frameRequested (gameLoop f s)"
    using that by (rule run_stopped)
  from reached skipped thrown request calls stats stop show ?thesis
    by blast
qed

text \<open>
  The frame at 62 seconds, met in the state left by the frame at 2 seconds, and the
  first frame of the session, which finds no stored frame.
\<close>

lemma last_frame_facts:
  "logicRuns frame_at_62s"
  "collisionReached frame_at_62s (fst (updated frame_at_62s state_at_2s))"
  "remaining (timestamp frame_at_62s) (prepared frame_at_62s state_at_2s) = 0"
  "enemiesRef (fst (updated frame_at_62s state_at_2s)) = [target ''9'' 62000]"
  "currentStats (fst (updated frame_at_62s state_at_2s)) =
     \<lparr> score = 0, headshots = 0, bodyshots = 0, enemiesSpawned = 2, enemiesDestroyed = 0 \<rparr>"
  by code_simp+

lemma first_frame_facts:
  "logicRuns frame_at_2s"
  "\<not> collisionReached frame_at_2s (fst (updated frame_at_2s initial))"
  "\<not> imageDataThrows frame_at_2s (fst (updated frame_at_2s initial))"
  "remaining (timestamp frame_at_2s) (prepared frame_at_2s initial) = 60"
  by code_simp+

theorem collision_pass_runs_whatever_the_clock_witness:
  "logicRuns frame_at_62s \<and>
   collisionReached frame_at_62s (fst (updated frame_at_62s state_at_2s)) \<and>
   remaining (timestamp frame_at_62s) (prepared frame_at_62s state_at_2s) = 0 \<and>
   gameLoop frame_at_62s state_at_2s =
     (collided frame_at_62s (fst (updated frame_at_62s state_at_2s)))\<lparr>frameRequested := False\<rparr> \<and>
   gameOverCalls (gameLoop frame_at_62s state_at_2s) =
     [\<lparr> score = 0, headshots = 0, bodyshots = 0, enemiesSpawned = 2, enemiesDestroyed = 0 \<rparr>] \<and>
   \<not> frameRequested (gameLoop frame_at_62s state_at_2s) \<and>
   run [frame_at_4s] (gameLoop frame_at_62s state_at_2s) = gameLoop frame_at_62s state_at_2s \<and>
   logicRuns frame_at_2s \<and>
   \<not> collisionReached frame_at_2s (fst (updated frame_at_2s initial)) \<and>
   \<not> imageDataThrows frame_at_2s (fst (updated frame_at_2s initial)) \<and>
   remaining (timestamp frame_at_2s) (prepared frame_at_2s initial) = 60 \<and>
   gameLoop frame_at_2s initial =
     (stored frame_at_2s (fst (updated frame_at_2s initial)))\<lparr>frameRequested := True\<rparr> \<and>
   frameRequested (gameLoop frame_at_2s initial) \<and>
   gameOverCalls (gameLoop frame_at_2s initial) = []"
proof -
  let ?u = "fst (updated frame_at_62s state_at_2s)"
  let ?g = "gameLoop frame_at_62s state_at_2s"
  let ?v = "fst (updated frame_at_2s initial)"
  let ?h = "gameLoop frame_at_2s initial"
  note last = collision_pass_runs_whatever_the_clock
    [OF last_frame_facts(1), where s = state_at_2s and fs = "[frame_at_4s]"]
  note first = collision_pass_runs_whatever_the_clock
    [OF first_frame_facts(1), where s = initial and fs = "[]"]
  have none: "gameOverCalls state_at_2s = []" "gameOverCalls initial = []"
    by (simp_all add: state_at_2s_def initial_def)
  from last last_frame_facts(2) have "?g = (collided frame_at_62s ?u)
      \<lparr>frameRequested := 0 < remaining (timestamp frame_at_62s) (prepared frame_at_62s state_at_2s)\<rparr>"
    by blast
  then have loop: "?g = (collided frame_at_62s ?u)\<lparr>frameRequested := False\<rparr>"
    by (simp only: last_frame_facts(3) less_irrefl)
  from last have "frameRequested ?g \<longleftrightarrow>
      0 < remaining (timestamp frame_at_62s) (prepared frame_at_62s state_at_2s) \<and>
      \<not> imageDataThrows frame_at_62s ?u"
    by blast
  then have stopped: "\<not> frameRequested ?g"
    by (simp only: last_frame_facts(3)) simp
  with last have stop: "run [frame_at_4s] ?g = ?g"
    by blast
  from last have "gameOverCalls ?g =
      (if remaining (timestamp frame_at_62s) (prepared frame_at_62s state_at_2s) = 0
       then currentStats ?u # gameOverCalls state_at_2s else gameOverCalls state_at_2s)"
    by blast
  then have calls: "gameOverCalls ?g =
      [\<lparr> score = 0, headshots = 0, bodyshots = 0, enemiesSpawned = 2, enemiesDestroyed = 0 \<rparr>]"
    by (simp add: last_frame_facts(3,5) none)
  from first first_frame_facts(2,3) have "?h = (stored frame_at_2s ?v)
      \<lparr>frameRequested := 0 < remaining (timestamp frame_at_2s) (prepared frame_at_2s initial)\<rparr>"
    by blast
  then have started: "?h = (stored frame_at_2s ?v)\<lparr>frameRequested := True\<rparr>"
    by (simp only: first_frame_facts(4)) simp
  from first have "frameRequested ?h \<longleftrightarrow>
      0 < remaining (timestamp frame_at_2s) (prepared frame_at_2s initial) \<and>
      \<not> imageDataThrows frame_at_2s ?v"
    by blast
  with first_frame_facts(3) have going: "frameRequested ?h"
    by (simp only: first_frame_facts(4)) simp
  from first have "gameOverCalls ?h =
      (if remaining (timestamp frame_at_2s) (prepared frame_at_2s initial) = 0
       then currentStats ?v # gameOverCalls initial else gameOverCalls initial)"
    by blast
  then have quiet: "gameOverCalls ?h = []"
    by (simp only: first_frame_facts(4) none) simp
  from last_frame_facts(1,2,3) first_frame_facts loop calls stopped stop started going quiet
  show ?thesis
    by blast
qed

text \<open>
  Claim C1 as stated fails in the recorded session. On the frame at 62 seconds the
  remaining time is 0 and the game-over callback receives a score of 0; the target that
  left the sweep with hp 3 is then hit by the collision pass of that same frame, which
  leaves it with hp 0 and the counters at score 3, one headshot, one destroyed.
\<close>

theorem collision_pass_after_time_is_up:
  "remaining (timestamp frame_at_62s) (prepared frame_at_62s (run [frame_at_2s] initial)) = 0 \<and>
   gameOverCalls (run [frame_at_2s, frame_at_62s] initial) =
     [\<lparr> score = 0, headshots = 0, bodyshots = 0, enemiesSpawned = 2, enemiesDestroyed = 0 \<rparr>] \<and>
   map hp (enemiesRef (fst (updated frame_at_62s (run [frame_at_2s] initial)))) = [3] \<and>
   map hp (enemiesRef (run [frame_at_2s, frame_at_62s] initial)) = [0] \<and>
   scoreRef (run [frame_at_2s, frame_at_62s] initial) = 3 \<and>
   headshotsRef (run [frame_at_2s, frame_at_62s] initial) = 1 \<and>
   enemiesDestroyedRef (run [frame_at_2s, frame_at_62s] initial) = 1"
  unfolding run_to_2s run_to_62s last_frame_facts
  by (simp add: state_at_62s_def target_def)

subsection \<open>The list of enemies across a frame, and identities\<close>












subsection \<open>Spawning\<close>

text \<open>
  Claim C2 holds for the horizontal axis only. The spawn draws \<^verbatim>\<open>y\<close> from
  \<open>[0, height - size)\<close> although the target is \<open>size * 1.6\<close> tall. On the first frame of
  a 640 by 480 video the draws 1/2 (size) and 7/8 (y) give a target of height 160 at
  \<open>y = 332.5\<close>, whose lower edge 492.5 is below the canvas.
\<close>

theorem spawn_reaches_below_the_bounds:
  "spawnDue vga_frame initial \<and>
   enemiesRef (spawning vga_frame 640 480 initial) = [newEnemy vga_frame 640 480] \<and>
   enemy_width (newEnemy vga_frame 640 480) = 100 \<and>
   enemy_height (newEnemy vga_frame 640 480) = 160 \<and>
   enemy_x (newEnemy vga_frame 640 480) = 270 \<and>
   enemy_y (newEnemy vga_frame 640 480) = 665 / 2 \<and>
   enemy_y (newEnemy vga_frame 640 480) + enemy_height (newEnemy vga_frame 640 480) = 985 / 2 \<and>
   \<not> enemy_y (newEnemy vga_frame 640 480) + enemy_height (newEnemy vga_frame 640 480) \<le> 480"
  by (simp add: spawning_def spawnDue_def newEnemy_def vga_frame_def initial_def
      ENEMY_SPAWN_RATE_MS_def Let_def)

subsection \<open>One cell, fed thirty times\<close>

text \<open>
  The active cells of a frame are a set: the compare loop visits every sample of the
  analysis grid once, and different samples give different cells. A list that holds a
  cell more than once is therefore no input of the collision pass.
\<close>

lemma cell_index:
  "of_nat k = mw * of_int \<lfloor>of_nat k / mw\<rfloor> + fst (cell mw k) / 8"
  "snd (cell mw k) / 8 = of_int \<lfloor>of_nat k / mw\<rfloor>"
  by (simp_all add: cell_def jsMod_def GRID_SCALE_def field_simps)

lemma cell_inj:
  assumes "cell mw j = cell mw k"
  shows "j = k"
proof -
  have "(of_nat j :: rat) = mw * (snd (cell mw j) / 8) + fst (cell mw j) / 8"
    by (simp only: cell_index(2)) (rule cell_index(1))
  also have "\<dots> = mw * (snd (cell mw k) / 8) + fst (cell mw k) / 8"
    by (simp only: assms)
  also have "\<dots> = of_nat k"
    by (simp only: cell_index(2)) (rule cell_index(1) [symmetric])
  finally show ?thesis
    by simp
qed

lemma comparePixels_indices:
  "p \<in> set (comparePixels mw k cs ps) \<Longrightarrow> \<exists>j\<ge>k. p = cell mw j"
proof (induction mw k cs ps rule: comparePixels.induct)
  case (1 mw k c cs p' ps)
  show ?case
  proof (cases "p = cell mw k")
    case True
    then show ?thesis
      by blast
  next
    case False
    with 1 obtain j where "Suc k \<le> j" "p = cell mw j"
      by (auto split: if_splits)
    then have "k \<le> j \<and> p = cell mw j"
      by simp
    then show ?thesis ..
  qed
qed simp_all

lemma comparePixels_distinct: "distinct (comparePixels mw k cs ps)"
proof (induction mw k cs ps rule: comparePixels.induct)
  case (1 mw k c cs p ps)
  have "cell mw k \<notin> set (comparePixels mw (Suc k) cs ps)"
  proof
    assume "cell mw k \<in> set (comparePixels mw (Suc k) cs ps)"
    from comparePixels_indices [OF this] obtain j where "Suc k \<le> j" "cell mw k = cell mw j"
      by blast
    with cell_inj [of mw k j] show False
      by simp
  qed
  with 1 show ?case
    by simp
qed simp_all

lemma activePixels_distinct: "distinct (activePixels f s)"
  by (simp add: activePixels_def comparePixels_distinct split: option.splits)

lemma no_frame_yields_copies: "activePixels f s \<noteq> replicate (Suc (Suc n)) p"
proof
  assume "activePixels f s = replicate (Suc (Suc n)) p"
  with activePixels_distinct [of f s] show False
    by simp
qed








subsection \<open>Rounding to a double\<close>

lemma roundHalfEven_of_int: "roundHalfEven (of_int n) = n"
  by (simp add: roundHalfEven_def)

lemma roundHalfEven_range:
  "\<lfloor>x\<rfloor> \<le> roundHalfEven x" "roundHalfEven x \<le> \<lfloor>x\<rfloor> + 1"
  by (simp_all add: roundHalfEven_def Let_def)

lemma roundHalfEven_mono:
  assumes "x \<le> y"
  shows "roundHalfEven x \<le> roundHalfEven y"
proof (cases "\<lfloor>x\<rfloor> < \<lfloor>y\<rfloor>")
  case True
  have "roundHalfEven x \<le> \<lfloor>x\<rfloor> + 1"
    by (rule roundHalfEven_range)
  also from True have "\<dots> \<le> \<lfloor>y\<rfloor>"
    by simp
  also have "\<dots> \<le> roundHalfEven y"
    by (rule roundHalfEven_range)
  finally show ?thesis .
next
  case False
  with assms have same: "\<lfloor>x\<rfloor> = \<lfloor>y\<rfloor>"
    by (simp add: floor_mono order_antisym not_less)
  with assms have "x - of_int \<lfloor>x\<rfloor> \<le> y - of_int \<lfloor>y\<rfloor>"
    by simp
  then show ?thesis
    unfolding roundHalfEven_def Let_def same by auto
qed

lemma roundHalfEven_near: "\<bar>of_int (roundHalfEven x) - x\<bar> \<le> 1 / 2"
proof -
  define d where "d = x - of_int \<lfloor>x\<rfloor>"
  have d: "0 \<le> d" "d < 1"
    unfolding d_def by linarith+
  have x: "x = of_int \<lfloor>x\<rfloor> + d"
    by (simp add: d_def)
  have "roundHalfEven x = \<lfloor>x\<rfloor> \<and> d \<le> 1 / 2 \<or> roundHalfEven x = \<lfloor>x\<rfloor> + 1 \<and> 1 / 2 \<le> d"
    unfolding roundHalfEven_def Let_def d_def [symmetric] by auto
  then show ?thesis
  proof
    assume "roundHalfEven x = \<lfloor>x\<rfloor> \<and> d \<le> 1 / 2"
    then have "of_int (roundHalfEven x) - x = - d" "d \<le> 1 / 2"
      using x by simp_all
    with d show ?thesis
      by simp
  next
    assume "roundHalfEven x = \<lfloor>x\<rfloor> + 1 \<and> 1 / 2 \<le> d"
    then have "of_int (roundHalfEven x) - x = 1 - d" "1 / 2 \<le> d"
      using x by simp_all
    with d show ?thesis
      by simp
  qed
qed

lemma roundHalfEven_nearest: "\<bar>of_int (roundHalfEven x) - x\<bar> \<le> \<bar>of_int n - x\<bar>"
proof (cases "n = roundHalfEven x")
  case True
  then show ?thesis by simp
next
  case False
  then have "1 \<le> \<bar>n - roundHalfEven x\<bar>"
    by simp
  then have "(1::rat) \<le> of_int \<bar>n - roundHalfEven x\<bar>"
    by (simp only: of_int_1_le_iff)
  then have "(1::rat) \<le> \<bar>of_int n - of_int (roundHalfEven x)\<bar>"
    by simp
  with roundHalfEven_near [of x] show ?thesis
    by linarith
qed

lemma roundHalfEven_minus: "roundHalfEven (- x) = - roundHalfEven x"
proof (cases "x = of_int \<lfloor>x\<rfloor>")
  case True
  then obtain n where n: "x = of_int n" ..
  then have "- x = of_int (- n)"
    by simp
  then show ?thesis
    using n by (simp only: roundHalfEven_of_int)
next
  case False
  define d where "d = x - of_int \<lfloor>x\<rfloor>"
  have dn: "0 \<le> d" and d1: "d < 1"
    unfolding d_def by linarith+
  from False have "d \<noteq> 0"
    by (simp add: d_def)
  with dn have d0: "0 < d"
    by simp
  have x: "x = of_int \<lfloor>x\<rfloor> + d"
    by (simp add: d_def)
  have fl: "\<lfloor>- x\<rfloor> = - \<lfloor>x\<rfloor> - 1"
  proof (rule floor_unique)
    show "of_int (- \<lfloor>x\<rfloor> - 1) \<le> - x"
      using d1 by (simp add: d_def)
    show "- x < of_int (- \<lfloor>x\<rfloor> - 1) + 1"
      using d0 by (simp add: d_def)
  qed
  have d': "- x - of_int (- \<lfloor>x\<rfloor> - 1) = 1 - d"
    by (simp add: d_def)
  have rx: "roundHalfEven x =
      (if d < 1 / 2 then \<lfloor>x\<rfloor> else if d > 1 / 2 then \<lfloor>x\<rfloor> + 1
       else if even \<lfloor>x\<rfloor> then \<lfloor>x\<rfloor> else \<lfloor>x\<rfloor> + 1)"
    unfolding roundHalfEven_def Let_def d_def ..
  have rm: "roundHalfEven (- x) =
      (if 1 - d < 1 / 2 then - \<lfloor>x\<rfloor> - 1 else if 1 - d > 1 / 2 then - \<lfloor>x\<rfloor> - 1 + 1
       else if even (- \<lfloor>x\<rfloor> - 1) then - \<lfloor>x\<rfloor> - 1 else - \<lfloor>x\<rfloor> - 1 + 1)"
    unfolding roundHalfEven_def Let_def fl d' ..
  show ?thesis
    unfolding rx rm using d0 d1 by auto
qed

text \<open>Halving an integer: an even one halves exactly, an odd one goes to the even half.\<close>

lemma roundHalfEven_half_even:
  assumes "even k"
  shows "2 * roundHalfEven (of_int k / 2) = k"
proof -
  from assms obtain j where k: "k = 2 * j" ..
  then have "(of_int k :: rat) / 2 = of_int j"
    by simp
  then show ?thesis
    by (simp only: roundHalfEven_of_int k)
qed

lemma roundHalfEven_half_value:
  "roundHalfEven (of_int (2 * j + 1) / 2) = (if even j then j else j + 1)"
proof -
  have x: "(of_int (2 * j + 1) :: rat) / 2 = of_int j + 1 / 2"
    by (simp add: add_divide_distrib)
  have fl: "\<lfloor>(of_int j :: rat) + 1 / 2\<rfloor> = j"
    by (intro floor_unique) simp_all
  show ?thesis
    unfolding x roundHalfEven_def Let_def fl by simp
qed

lemma roundHalfEven_half_odd:
  assumes "odd k"
  shows "even (roundHalfEven (of_int k / 2))"
    and "2 * roundHalfEven (of_int k / 2) = k - 1 \<or> 2 * roundHalfEven (of_int k / 2) = k + 1"
proof -
  from assms obtain j where k: "k = 2 * j + 1" ..
  then have x: "(of_int k :: rat) / 2 = of_int j + 1 / 2"
    by (simp add: add_divide_distrib)
  have fl: "\<lfloor>(of_int j :: rat) + 1 / 2\<rfloor> = j"
    by (intro floor_unique) simp_all
  have r: "roundHalfEven (of_int k / 2) = (if even j then j else j + 1)"
    unfolding x roundHalfEven_def Let_def fl by simp
  show "even (roundHalfEven (of_int k / 2))"
    by (simp add: r)
  show "2 * roundHalfEven (of_int k / 2) = k - 1 \<or> 2 * roundHalfEven (of_int k / 2) = k + 1"
    unfolding r using k by auto
qed

text \<open>
  The integer core of a smoothing step between two lattice points \<open>ka < kb\<close>: the sum of
  the two rounded halves is between them, strictly when they are not neighbours.
\<close>

lemma halves_between:
  fixes ka kb :: int
  assumes "ka < kb"
  shows "ka \<le> roundHalfEven (of_int ka / 2) + roundHalfEven (of_int kb / 2)"
    and "roundHalfEven (of_int ka / 2) + roundHalfEven (of_int kb / 2) \<le> kb"
    and "ka + 2 \<le> kb \<Longrightarrow> ka < roundHalfEven (of_int ka / 2) + roundHalfEven (of_int kb / 2)"
    and "ka + 2 \<le> kb \<Longrightarrow> roundHalfEven (of_int ka / 2) + roundHalfEven (of_int kb / 2) < kb"
proof -
  let ?a = "roundHalfEven (of_int ka / 2)" and ?b = "roundHalfEven (of_int kb / 2)"
  have a: "(even ka \<and> 2 * ?a = ka) \<or> (odd ka \<and> even ?a \<and> (2 * ?a = ka - 1 \<or> 2 * ?a = ka + 1))"
    using roundHalfEven_half_even [of ka] roundHalfEven_half_odd [of ka] by blast
  have b: "(even kb \<and> 2 * ?b = kb) \<or> (odd kb \<and> even ?b \<and> (2 * ?b = kb - 1 \<or> 2 * ?b = kb + 1))"
    using roundHalfEven_half_even [of kb] roundHalfEven_half_odd [of kb] by blast
  show "ka \<le> ?a + ?b" "?a + ?b \<le> kb"
    using a b assms(1) by presburger+
  show "ka < ?a + ?b" if "ka + 2 \<le> kb"
    using a b that by presburger
  show "?a + ?b < kb" if "ka + 2 \<le> kb"
    using a b that by presburger
qed

lemma halves_small:
  fixes k :: int
  assumes "\<bar>k\<bar> \<le> 2 ^ 53"
  shows "\<bar>roundHalfEven (of_int k / 2)\<bar> \<le> 2 ^ 52"
proof (cases "even k")
  case True
  from roundHalfEven_half_even [OF True] assms show ?thesis
    by simp
next
  case False
  have "even ((2::int) ^ 53)" "even (- ((2::int) ^ 53))"
    by simp_all
  with False have "k \<noteq> 2 ^ 53" "k \<noteq> - (2 ^ 53)"
    by metis+
  with assms have "\<bar>k\<bar> \<le> 2 ^ 53 - 1"
    by simp
  with roundHalfEven_half_odd(2) [OF False] show ?thesis
    by auto
qed

lemma bitlen_powi:
  assumes "0 < n"
  shows "2 powi (bitlen n - 1) \<le> (of_int n :: rat)" and "(of_int n :: rat) < 2 powi bitlen n"
proof -
  from assms have pos: "1 \<le> bitlen n"
    using bitlen_eq_zero_iff [of n] bitlen_nonneg [of n] by linarith
  from bitlen_bounds [OF assms]
  have "2 ^ nat (bitlen n - 1) \<le> n" "n < 2 ^ nat (bitlen n)"
    by simp_all
  then have "(of_int (2 ^ nat (bitlen n - 1)) :: rat) \<le> of_int n"
    "(of_int n :: rat) < of_int (2 ^ nat (bitlen n))"
    by (simp_all only: of_int_le_iff of_int_less_iff)
  with pos show "2 powi (bitlen n - 1) \<le> (of_int n :: rat)" "(of_int n :: rat) < 2 powi bitlen n"
    by (simp_all add: power_int_def)
qed

lemma exponent_bounds:
  assumes "0 < x"
  shows "2 powi exponent x \<le> x" and "x < 2 powi (exponent x + 1)"
proof -
  obtain p q where pq: "quotient_of x = (p, q)"
    by (cases "quotient_of x")
  then have q: "0 < q" and x: "x = of_int p / of_int q"
    by (simp_all add: quotient_of_denom_pos quotient_of_div)
  with assms have p: "0 < p"
    by (simp add: zero_less_divide_iff)
  let ?d = "bitlen p - bitlen q"
  note bp = bitlen_powi [OF p] and bq = bitlen_powi [OF q]
  have qpos: "(0::rat) < of_int q"
    using q by simp
  have "x * of_int q < 2 powi bitlen p"
    using bp(2) qpos by (simp add: x)
  also have "\<dots> = (2::rat) powi (?d + 1) * 2 powi (bitlen q - 1)"
    by (simp add: power_int_add [symmetric])
  also have "\<dots> \<le> 2 powi (?d + 1) * of_int q"
    using bq(1) by (simp add: mult_left_mono)
  finally have upper: "x < 2 powi (?d + 1)"
    using qpos by simp
  have "(2::rat) powi (?d - 1) * of_int q < 2 powi (?d - 1) * 2 powi bitlen q"
    using bq(2) by (simp add: mult_strict_left_mono)
  also have "\<dots> = 2 powi (bitlen p - 1)"
    by (simp add: power_int_add [symmetric])
  also have "\<dots> \<le> x * of_int q"
    using bp(1) qpos by (simp add: x)
  finally have lower: "2 powi (?d - 1) < x"
    using qpos by simp
  have e: "exponent x = (if 2 powi ?d \<le> x then ?d else ?d - 1)"
    by (simp add: exponent_def pq Let_def)
  show "2 powi exponent x \<le> x"
    using lower by (simp add: e)
  show "x < 2 powi (exponent x + 1)"
    using upper by (simp add: e not_le)
qed

lemma powi_less_exp:
  assumes "(2::rat) powi m < 2 powi n"
  shows "m < n"
proof (rule ccontr)
  assume "\<not> m < n"
  then have "(2::rat) powi n \<le> 2 powi m"
    by (intro power_int_increasing) simp_all
  with assms show False
    by simp
qed

lemma exponent_unique:
  assumes "2 powi e \<le> x" and "x < 2 powi (e + 1)"
  shows "exponent x = e"
proof -
  have pos: "0 < x"
    using assms(1) by (rule less_le_trans [rotated]) simp
  note b = exponent_bounds [OF pos]
  have "(2::rat) powi e < 2 powi (exponent x + 1)"
    using assms(1) b(2) by simp
  then have "e < exponent x + 1"
    by (rule powi_less_exp)
  moreover have "(2::rat) powi exponent x < 2 powi (e + 1)"
    using assms(2) b(1) by simp
  then have "exponent x < e + 1"
    by (rule powi_less_exp)
  ultimately show ?thesis
    by simp
qed

lemma exponent_mono:
  assumes "0 < x" and "x \<le> y"
  shows "exponent x \<le> exponent y"
proof -
  from assms have "0 < y"
    by simp
  from exponent_bounds(1) [OF assms(1)] exponent_bounds(2) [OF this] assms(2)
  have "(2::rat) powi exponent x < 2 powi (exponent y + 1)"
    by simp
  then have "exponent x < exponent y + 1"
    by (rule powi_less_exp)
  then show ?thesis
    by simp
qed

lemma powi_le_exp:
  assumes "(2::rat) powi m \<le> 2 powi n"
  shows "m \<le> n"
proof (rule ccontr)
  assume "\<not> m \<le> n"
  then have "(2::rat) powi n < 2 powi m"
    by (intro power_int_strict_increasing) simp_all
  with assms show False
    by simp
qed

lemma exponent_small:
  assumes "0 < x" and "x \<le> 2 powi e"
  shows "exponent x \<le> e"
proof -
  from exponent_bounds(1) [OF assms(1)] assms(2) have "(2::rat) powi exponent x \<le> 2 powi e"
    by simp
  then show ?thesis
    by (rule powi_le_exp)
qed

lemma exponent_large:
  assumes "2 powi e \<le> x"
  shows "e \<le> exponent x"
proof -
  have "0 < x"
    using assms by (rule less_le_trans [rotated]) simp
  from exponent_bounds(2) [OF this] assms have "(2::rat) powi e < 2 powi (exponent x + 1)"
    by simp
  then have "e < exponent x + 1"
    by (rule powi_less_exp)
  then show ?thesis
    by simp
qed

text \<open>The unit in the last place.\<close>

lemma ulp_pos: "0 < ulp x"
  by (simp add: ulp_def)

lemma powi_ratio:
  assumes "m \<le> n"
  shows "\<exists>j::nat. (2::rat) powi n = 2 ^ j * 2 powi m"
proof
  have "(2::rat) powi n = 2 powi (int (nat (n - m)) + m)"
    using assms by simp
  also have "\<dots> = 2 powi int (nat (n - m)) * 2 powi m"
    by (rule power_int_add) simp
  finally show "(2::rat) powi n = 2 ^ nat (n - m) * 2 powi m"
    by (simp only: power_int_of_nat)
qed

lemma ulp_least: "\<exists>j::nat. ulp x = 2 ^ j * 2 powi (- 1074)"
  unfolding ulp_def by (rule powi_ratio) simp

lemma ulp_ratio:
  assumes "ulp x \<le> ulp y"
  shows "\<exists>j::nat. ulp y = 2 ^ j * ulp x"
proof -
  from assms have "max (exponent x) (- 1022) - 52 \<le> max (exponent y) (- 1022) - 52"
    unfolding ulp_def by (rule powi_le_exp)
  then show ?thesis
    unfolding ulp_def by (rule powi_ratio)
qed

lemma ulp_mono:
  assumes "0 < x" and "x \<le> y"
  shows "ulp x \<le> ulp y"
  unfolding ulp_def using exponent_mono [OF assms]
  by (intro power_int_increasing) simp_all

lemma ulp_step:
  assumes "ulp x < ulp y"
  shows "2 * ulp x \<le> ulp y" and "- 1022 \<le> exponent y" and "ulp y = 2 powi (exponent y - 52)"
    and "exponent x < exponent y"
proof -
  from assms have lt: "max (exponent x) (- 1022) - 52 < max (exponent y) (- 1022) - 52"
    unfolding ulp_def by (rule powi_less_exp)
  then have "max (exponent x) (- 1022) - 52 + 1 \<le> max (exponent y) (- 1022) - 52"
    by linarith
  then have "(2::rat) powi (max (exponent x) (- 1022) - 52 + 1) \<le> 2 powi (max (exponent y) (- 1022) - 52)"
    by (intro power_int_increasing) simp_all
  moreover have "2 * (2::rat) powi a = 2 powi (a + 1)" for a :: int
    by (simp add: power_int_add)
  ultimately show "2 * ulp x \<le> ulp y"
    by (simp only: ulp_def)
  from lt show e: "- 1022 \<le> exponent y" and "exponent x < exponent y"
    by linarith+
  then show "ulp y = 2 powi (exponent y - 52)"
    by (simp add: ulp_def max_def)
qed

lemma scaled_upper:
  assumes "0 < x"
  shows "x / ulp x < 2 ^ 53"
proof -
  have "x < 2 powi (exponent x + 1)"
    by (rule exponent_bounds(2) [OF assms])
  also have "\<dots> \<le> 2 powi (max (exponent x) (- 1022) + 1)"
    by (intro power_int_increasing) simp_all
  also have "\<dots> = 2 ^ 53 * ulp x"
    by (simp add: ulp_def power_int_diff power_int_add)
  finally show ?thesis
    using ulp_pos [of x] by (simp add: pos_divide_less_eq)
qed

lemma scaled_lower:
  assumes "0 < x" and "- 1022 \<le> exponent x"
  shows "2 ^ 52 \<le> x / ulp x"
proof -
  from assms(2) have "2 ^ 52 * ulp x = 2 powi exponent x"
    by (simp add: ulp_def max_def power_int_diff)
  also have "\<dots> \<le> x"
    by (rule exponent_bounds(1) [OF assms(1)])
  finally show ?thesis
    using ulp_pos [of x] by (simp add: pos_le_divide_eq)
qed

lemma significand_upper:
  assumes "0 < x"
  shows "0 \<le> roundHalfEven (x / ulp x)" and "roundHalfEven (x / ulp x) \<le> 2 ^ 53"
proof -
  have "0 \<le> x / ulp x"
    using assms ulp_pos [of x] by simp
  then have "roundHalfEven (of_int 0) \<le> roundHalfEven (x / ulp x)"
    by (intro roundHalfEven_mono) simp
  then show "0 \<le> roundHalfEven (x / ulp x)"
    by (simp only: roundHalfEven_of_int)
  have "roundHalfEven (x / ulp x) \<le> roundHalfEven (of_int (2 ^ 53))"
    using scaled_upper [OF assms] by (intro roundHalfEven_mono) simp
  then show "roundHalfEven (x / ulp x) \<le> 2 ^ 53"
    by (simp only: roundHalfEven_of_int)
qed

lemma significand_lower:
  assumes "0 < x" and "- 1022 \<le> exponent x"
  shows "2 ^ 52 \<le> roundHalfEven (x / ulp x)"
proof -
  have "roundHalfEven (of_int (2 ^ 52)) \<le> roundHalfEven (x / ulp x)"
    using scaled_lower [OF assms] by (intro roundHalfEven_mono) simp
  then show ?thesis
    by (simp only: roundHalfEven_of_int)
qed

lemma roundPositive_nonneg:
  assumes "0 < x"
  shows "0 \<le> roundPositive x"
  unfolding roundPositive_def using significand_upper(1) [OF assms] ulp_pos [of x]
  by simp

lemma roundPositive_upper:
  assumes "0 < x"
  shows "roundPositive x \<le> 2 ^ 53 * ulp x"
proof -
  from significand_upper(2) [OF assms]
  have "(of_int (roundHalfEven (x / ulp x)) :: rat) \<le> of_int (2 ^ 53)"
    by (simp only: of_int_le_iff)
  then show ?thesis
    unfolding roundPositive_def using ulp_pos [of x] by (simp add: mult_right_mono)
qed

lemma roundPositive_lower:
  assumes "0 < x" and "- 1022 \<le> exponent x"
  shows "2 ^ 52 * ulp x \<le> roundPositive x"
proof -
  from significand_lower [OF assms]
  have "(of_int (2 ^ 52) :: rat) \<le> of_int (roundHalfEven (x / ulp x))"
    by (simp only: of_int_le_iff)
  then show ?thesis
    unfolding roundPositive_def using ulp_pos [of x] by (simp add: mult_right_mono)
qed

lemma roundPositive_mono:
  assumes "0 < x" and "x \<le> y"
  shows "roundPositive x \<le> roundPositive y"
proof (cases "ulp x = ulp y")
  case True
  have "x / ulp y \<le> y / ulp y"
    using assms(2) ulp_pos [of y] by (simp add: divide_right_mono)
  then have "roundHalfEven (x / ulp y) \<le> roundHalfEven (y / ulp y)"
    by (rule roundHalfEven_mono)
  then have "(of_int (roundHalfEven (x / ulp y)) :: rat) * ulp y \<le> of_int (roundHalfEven (y / ulp y)) * ulp y"
    using ulp_pos [of y] by (simp add: mult_right_mono)
  then show ?thesis
    by (simp add: roundPositive_def True)
next
  case False
  from assms have y: "0 < y"
    by simp
  from False ulp_mono [OF assms] have "ulp x < ulp y"
    by simp
  note step = ulp_step [OF this]
  have "roundPositive x \<le> 2 ^ 53 * ulp x"
    by (rule roundPositive_upper [OF assms(1)])
  also have "\<dots> \<le> 2 ^ 52 * ulp y"
    using step(1) by simp
  also have "\<dots> \<le> roundPositive y"
    by (rule roundPositive_lower [OF y step(2)])
  finally show ?thesis .
qed

lemma round64_minus: "round64 (- x) = - round64 x"
  by (simp add: round64_def)

lemma round64_mono:
  assumes "x \<le> y"
  shows "round64 x \<le> round64 y"
proof -
  consider "0 < x" | "x \<le> 0" "0 \<le> y" | "y < 0"
    using assms by linarith
  then show ?thesis
  proof cases
    case 1
    with assms show ?thesis
      by (simp add: round64_def roundPositive_mono)
  next
    case 2
    have "round64 x \<le> 0"
      using 2(1) roundPositive_nonneg [of "- x"] by (simp add: round64_def)
    moreover have "0 \<le> round64 y"
      using 2(2) roundPositive_nonneg [of y] by (simp add: round64_def)
    ultimately show ?thesis
      by simp
  next
    case 3
    with assms have "0 < - y" "- y \<le> - x"
      by simp_all
    then have "roundPositive (- y) \<le> roundPositive (- x)"
      by (rule roundPositive_mono)
    with 3 assms show ?thesis
      by (simp add: round64_def)
  qed
qed

text \<open>
  The numbers \<open>m * 2\<^sup>k\<close> with \<open>|m| \<le> 2\<^sup>5\<^sup>3\<close> and \<open>k \<ge> -1074\<close> are left as they are, and the
  rounding produces only such numbers.
\<close>

lemma roundPositive_grid_less:
  assumes "0 < m" and "m < 2 ^ 53" and "- 1074 \<le> k"
  shows "roundPositive (of_int m * 2 powi k) = of_int m * 2 powi k"
proof -
  let ?x = "of_int m * 2 powi k :: rat"
  have pos: "0 < ?x"
    using assms(1) by simp
  from assms(2) have "(of_int m :: rat) < of_int (2 ^ 53)"
    by (simp only: of_int_less_iff)
  then have "?x < 2 ^ 53 * 2 powi k"
    by (simp add: mult_strict_right_mono)
  also have "\<dots> = 2 powi (k + 53)"
    by (simp add: power_int_add)
  finally have "(2::rat) powi exponent ?x < 2 powi (k + 53)"
    using exponent_bounds(1) [OF pos] by simp
  then have "exponent ?x < k + 53"
    by (rule powi_less_exp)
  with assms(3) have le: "max (exponent ?x) (- 1022) - 52 \<le> k"
    by simp
  define u where "u = ulp ?x"
  have u: "0 < u"
    by (simp add: u_def ulp_pos)
  from powi_ratio [OF le] obtain j :: nat where j: "2 powi k = 2 ^ j * u"
    unfolding u_def ulp_def by blast
  have rp: "roundPositive ?x = of_int (roundHalfEven (?x / u)) * u"
    by (simp only: roundPositive_def u_def)
  have q: "?x / u = of_int (m * 2 ^ j)"
    unfolding j using u by simp
  have "roundPositive ?x = of_int (m * 2 ^ j) * u"
    unfolding rp q roundHalfEven_of_int ..
  also have "\<dots> = of_int m * (2 ^ j * u)"
    by simp
  finally show ?thesis
    by (simp only: j)
qed

lemma roundPositive_grid:
  assumes "0 < m" and "m \<le> 2 ^ 53" and "- 1074 \<le> k"
  shows "roundPositive (of_int m * 2 powi k) = of_int m * 2 powi k"
proof (cases "m = 2 ^ 53")
  case True
  have eq: "(of_int m :: rat) * 2 powi k = of_int (2 ^ 52) * 2 powi (k + 1)"
    by (simp add: True power_int_add)
  have "roundPositive (of_int (2 ^ 52) * 2 powi (k + 1)) = of_int (2 ^ 52) * 2 powi (k + 1)"
    using assms(3) by (intro roundPositive_grid_less) simp_all
  then show ?thesis
    by (simp only: eq)
next
  case False
  with assms show ?thesis
    by (intro roundPositive_grid_less) simp_all
qed

lemma round64_grid:
  assumes "\<bar>m\<bar> \<le> 2 ^ 53" and "- 1074 \<le> k"
  shows "round64 (of_int m * 2 powi k) = of_int m * 2 powi k"
proof -
  consider "m = 0" | "0 < m" | "m < 0"
    by linarith
  then show ?thesis
  proof cases
    case 1
    then show ?thesis
      by (simp add: round64_def)
  next
    case 2
    with assms have "roundPositive (of_int m * 2 powi k) = of_int m * 2 powi k"
      by (intro roundPositive_grid) simp_all
    with 2 show ?thesis
      by (simp add: round64_def)
  next
    case 3
    with assms have "roundPositive (of_int (- m) * 2 powi k) = of_int (- m) * 2 powi k"
      by (intro roundPositive_grid) simp_all
    moreover from 3 have "of_int m * 2 powi k < (0::rat)"
      by (simp add: mult_less_0_iff)
    ultimately show ?thesis
      by (simp add: round64_def)
  qed
qed

lemma roundPositive_form:
  assumes "0 < x"
  shows "\<exists>m. roundPositive x = of_int m * ulp x \<and> 0 \<le> m \<and> m \<le> 2 ^ 53"
  using significand_upper [OF assms] unfolding roundPositive_def by blast

lemma round64_form: "\<exists>m k. round64 x = of_int m * 2 powi k \<and> \<bar>m\<bar> \<le> 2 ^ 53 \<and> - 1074 \<le> k"
proof -
  have pos: "\<exists>m k. roundPositive y = of_int m * 2 powi k \<and> 0 \<le> m \<and> m \<le> 2 ^ 53 \<and> - 1074 \<le> k"
    if "0 < y" for y
  proof -
    from roundPositive_form [OF that] obtain m
      where "roundPositive y = of_int m * 2 powi (max (exponent y) (- 1022) - 52)"
        "0 \<le> m" "m \<le> 2 ^ 53"
      unfolding ulp_def by blast
    moreover have "- 1074 \<le> max (exponent y) (- 1022) - 52"
      by simp
    ultimately show ?thesis
      by blast
  qed
  consider "x = 0" | "0 < x" | "x < 0"
    by linarith
  then show ?thesis
  proof cases
    case 1
    have "round64 x = of_int 0 * 2 powi 0" "\<bar>0::int\<bar> \<le> 2 ^ 53" "- 1074 \<le> (0::int)"
      using 1 by (simp_all add: round64_def)
    then show ?thesis
      by blast
  next
    case 2
    from pos [OF 2] obtain m k
      where "roundPositive x = of_int m * 2 powi k" "0 \<le> m" "m \<le> 2 ^ 53" "- 1074 \<le> k"
      by blast
    with 2 have "round64 x = of_int m * 2 powi k" "\<bar>m\<bar> \<le> 2 ^ 53" "- 1074 \<le> k"
      by (simp_all add: round64_def)
    then show ?thesis
      by blast
  next
    case 3
    then have "0 < - x"
      by simp
    from pos [OF this] obtain m k
      where "roundPositive (- x) = of_int m * 2 powi k" "0 \<le> m" "m \<le> 2 ^ 53" "- 1074 \<le> k"
      by blast
    with 3 have "round64 x = of_int (- m) * 2 powi k" "\<bar>- m\<bar> \<le> 2 ^ 53" "- 1074 \<le> k"
      by (simp_all add: round64_def)
    then show ?thesis
      by blast
  qed
qed

lemma round64_idem: "round64 (round64 x) = round64 x"
proof -
  from round64_form [of x] obtain m k
    where "round64 x = of_int m * 2 powi k" "\<bar>m\<bar> \<le> 2 ^ 53" "- 1074 \<le> k"
    by blast
  with round64_grid [of m k] show ?thesis
    by simp
qed

lemma isDouble_minus: "isDouble (- x) \<longleftrightarrow> isDouble x"
  by (auto simp: isDouble_def round64_minus)

lemma round64_in_range:
  assumes "isDouble a" and "isDouble b" and "a \<le> x" and "x \<le> b"
  shows "isDouble (round64 x)" and "a \<le> round64 x" and "round64 x \<le> b"
proof -
  from round64_mono [OF assms(3)] assms(1) show lo: "a \<le> round64 x"
    by (simp add: isDouble_def)
  from round64_mono [OF assms(4)] assms(2) show hi: "round64 x \<le> b"
    by (simp add: isDouble_def)
  from assms(1,2) have "\<bar>a\<bar> < 2 ^ 1024" "\<bar>b\<bar> < 2 ^ 1024"
    by (simp_all add: isDouble_def)
  with lo hi have "\<bar>round64 x\<bar> < 2 ^ 1024"
    by linarith
  then show "isDouble (round64 x)"
    by (simp add: isDouble_def round64_idem)
qed

lemma isDouble_grid:
  assumes "\<bar>m\<bar> \<le> 2 ^ 53" and "- 1074 \<le> k" and "k \<le> 970"
  shows "isDouble (of_int m * 2 powi k)"
proof -
  from assms(1) have "(of_int \<bar>m\<bar> :: rat) \<le> of_int (2 ^ 53)"
    by (simp only: of_int_le_iff)
  then have m: "\<bar>of_int m :: rat\<bar> \<le> 2 ^ 53"
    by simp
  have "(2::rat) powi k \<le> 2 powi 970"
    using assms(3) by (intro power_int_increasing) simp_all
  with m have "\<bar>of_int m :: rat\<bar> * 2 powi k \<le> 2 ^ 53 * 2 powi 970"
    by (intro mult_mono) simp_all
  also have "\<dots> < 2 ^ 1024"
    by simp
  finally have "\<bar>of_int m * 2 powi k :: rat\<bar> < 2 ^ 1024"
    by (simp add: abs_mult)
  with round64_grid [OF assms(1,2)] show ?thesis
    by (simp add: isDouble_def)
qed

text \<open>The rounding returns a nearest double: no double is closer to \<open>x\<close>.\<close>

lemma roundPositive_nearest_grid:
  "\<bar>roundPositive x - x\<bar> \<le> \<bar>of_int n * ulp x - x\<bar>"
proof -
  let ?u = "ulp x" and ?q = "x / ulp x"
  have u: "0 < ?u"
    by (rule ulp_pos)
  then have x: "x = ?q * ?u"
    by simp
  have "roundPositive x - x = (of_int (roundHalfEven ?q) - ?q) * ?u"
    using u by (simp add: roundPositive_def left_diff_distrib)
  then have "\<bar>roundPositive x - x\<bar> = \<bar>of_int (roundHalfEven ?q) - ?q\<bar> * ?u"
    using u by (simp add: abs_mult)
  also have "\<dots> \<le> \<bar>of_int n - ?q\<bar> * ?u"
    using u roundHalfEven_nearest [of ?q n] by (simp add: mult_right_mono)
  also have "\<dots> = \<bar>(of_int n - ?q) * ?u\<bar>"
    using u by (simp add: abs_mult)
  also have "(of_int n - ?q) * ?u = of_int n * ?u - x"
    using u by (simp add: left_diff_distrib)
  finally show ?thesis .
qed

lemma roundPositive_nearest:
  assumes "0 < x" and "round64 d = d"
  shows "\<bar>roundPositive x - x\<bar> \<le> \<bar>d - x\<bar>"
proof (cases "0 < d")
  case False
  from roundPositive_nearest_grid [of x 0] have "\<bar>roundPositive x - x\<bar> \<le> x"
    using assms(1) by simp
  with False assms(1) show ?thesis
    by simp
next
  case True
  with assms(2) have "roundPositive d = d"
    by (simp add: round64_def)
  with roundPositive_form [OF True] obtain m where m: "d = of_int m * ulp d"
    by auto
  show ?thesis
  proof (cases "ulp x \<le> ulp d")
    case True
    from ulp_ratio [OF this] obtain j :: nat where "ulp d = 2 ^ j * ulp x"
      by blast
    with m have "d = of_int (m * 2 ^ j) * ulp x"
      by simp
    with roundPositive_nearest_grid [of x "m * 2 ^ j"] show ?thesis
      by simp
  next
    case False
    then have "ulp d < ulp x"
      by simp
    note step = ulp_step [OF this]
    have "d < 2 powi (exponent d + 1)"
      by (rule exponent_bounds(2) [OF True])
    also have "\<dots> \<le> 2 powi exponent x"
      using step(4) by (intro power_int_increasing) simp_all
    finally have d: "d < 2 powi exponent x" .
    have low: "2 powi exponent x \<le> x"
      by (rule exponent_bounds(1) [OF assms(1)])
    have "of_int (2 ^ 52) * ulp x = 2 powi exponent x"
      by (simp add: step(3) power_int_diff)
    with roundPositive_nearest_grid [of x "2 ^ 52"]
    have "\<bar>roundPositive x - x\<bar> \<le> \<bar>2 powi exponent x - x\<bar>"
      by simp
    with d low show ?thesis
      by simp
  qed
qed

lemma round64_nearest:
  assumes "round64 d = d"
  shows "\<bar>round64 x - x\<bar> \<le> \<bar>d - x\<bar>"
proof -
  consider "x = 0" | "0 < x" | "x < 0"
    by linarith
  then show ?thesis
  proof cases
    case 1
    then show ?thesis
      by (simp add: round64_def)
  next
    case 2
    with roundPositive_nearest [OF 2 assms] show ?thesis
      by (simp add: round64_def)
  next
    case 3
    then have neg: "0 < - x"
      by simp
    from assms have "round64 (- d) = - d"
      by (simp add: round64_minus)
    from roundPositive_nearest [OF neg this] 3 show ?thesis
      by (simp add: round64_def)
  qed
qed

text \<open>
  Every double is a multiple of the smallest one, \<open>2\<^sup>-\<^sup>1\<^sup>0\<^sup>7\<^sup>4\<close>, and the multiples up to
  \<open>2\<^sup>5\<^sup>3\<close> are doubles: below \<open>2\<^sup>-\<^sup>1\<^sup>0\<^sup>2\<^sup>1\<close> the doubles are a lattice, on which halving is
  exact for the even multiples only. From \<open>2\<^sup>-\<^sup>1\<^sup>0\<^sup>2\<^sup>1\<close> on the doubles are even multiples
  and halving is exact.
\<close>

lemma double_lattice:
  assumes "round64 x = x"
  shows "\<exists>k. x = of_int k * MIN_VALUE"
proof -
  from round64_form [of x] assms obtain m k
    where x: "x = of_int m * 2 powi k" and k: "- 1074 \<le> k"
    by auto
  from powi_ratio [OF k] obtain j :: nat where "(2::rat) powi k = 2 ^ j * 2 powi (- 1074)"
    by blast
  with x have "x = of_int (m * 2 ^ j) * MIN_VALUE"
    by (simp add: MIN_VALUE_def)
  then show ?thesis ..
qed

lemma lattice_double:
  assumes "\<bar>k\<bar> \<le> 2 ^ 53"
  shows "round64 (of_int k * MIN_VALUE) = of_int k * MIN_VALUE"
  unfolding MIN_VALUE_def using assms by (intro round64_grid) simp_all

lemma lattice_ulp:
  assumes "0 < x" and "x \<le> 2 powi (- 1022)"
  shows "ulp x = MIN_VALUE"
proof -
  from exponent_small [OF assms] have "max (exponent x) (- 1022) = - 1022"
    by simp
  then show ?thesis
    by (simp add: ulp_def MIN_VALUE_def)
qed

lemma lattice_half_pos:
  assumes "0 < k" and "k \<le> 2 ^ 53"
  shows "roundPositive (of_int k * MIN_VALUE / 2) = of_int (roundHalfEven (of_int k / 2)) * MIN_VALUE"
proof -
  let ?x = "of_int k * MIN_VALUE / 2 :: rat"
  have pos: "0 < ?x"
    using assms(1) by (simp add: MIN_VALUE_def)
  from assms(2) have "(of_int k :: rat) \<le> of_int (2 ^ 53)"
    by (simp only: of_int_le_iff)
  then have "?x \<le> 2 ^ 53 * MIN_VALUE / 2"
    by (simp add: MIN_VALUE_def)
  also have "\<dots> = 2 powi (- 1022)"
    by (simp add: MIN_VALUE_def power_int_minus_divide)
  finally have u: "ulp ?x = MIN_VALUE"
    by (rule lattice_ulp [OF pos])
  have "?x / MIN_VALUE = of_int k / 2"
    by (simp add: MIN_VALUE_def)
  then show ?thesis
    by (simp only: roundPositive_def u)
qed

lemma lattice_half:
  assumes "\<bar>k\<bar> \<le> 2 ^ 53"
  shows "round64 (of_int k * MIN_VALUE / 2) = of_int (roundHalfEven (of_int k / 2)) * MIN_VALUE"
proof -
  have u: "0 < MIN_VALUE"
    by (simp add: MIN_VALUE_def)
  consider "k = 0" | "0 < k" | "k < 0"
    by linarith
  then show ?thesis
  proof cases
    case 1
    have "roundHalfEven (of_int 0) = 0"
      by (rule roundHalfEven_of_int)
    with 1 show ?thesis
      by (simp add: round64_def)
  next
    case 2
    with assms have "k \<le> 2 ^ 53"
      by simp
    from lattice_half_pos [OF 2 this] 2 u show ?thesis
      by (simp add: round64_def)
  next
    case 3
    with assms have mk: "0 < - k" "- k \<le> 2 ^ 53"
      by simp_all
    define x where "x = of_int k * MIN_VALUE / 2"
    from lattice_half_pos [OF mk]
    have "roundPositive (- x) = - (of_int (roundHalfEven (of_int k / 2)) * MIN_VALUE)"
      using roundHalfEven_minus [of "of_int k / 2"] by (simp add: x_def)
    moreover from 3 u have "x < 0"
      by (simp add: x_def mult_less_0_iff)
    then have "round64 x = - roundPositive (- x)"
      by (simp add: round64_def)
    ultimately show ?thesis
      unfolding x_def [symmetric] by simp
  qed
qed

lemma large_pos:
  assumes "roundPositive x = x" and "2 powi (- 1021) \<le> x"
  shows "\<exists>j. x = of_int j * (2 * MIN_VALUE)" and "round64 (x / 2) = x / 2"
proof -
  have pos: "0 < x"
    using assms(2) by (rule less_le_trans [rotated]) simp
  from exponent_large [OF assms(2)] have e: "- 1021 \<le> exponent x" .
  then have u: "ulp x = 2 powi (exponent x - 52)"
    by (simp add: ulp_def max_def)
  from roundPositive_form [OF pos] assms(1) obtain m
    where x: "x = of_int m * 2 powi (exponent x - 52)" and m: "0 \<le> m" "m \<le> 2 ^ 53"
    unfolding u by auto
  from e have "- 1073 \<le> exponent x - 52"
    by simp
  from powi_ratio [OF this] obtain j :: nat
    where p: "(2::rat) powi (exponent x - 52) = 2 ^ j * 2 powi (- 1073)"
    by blast
  have q: "(2::rat) powi (- 1073) = 2 * MIN_VALUE"
    by (simp add: MIN_VALUE_def power_int_minus_divide)
  have "x = of_int m * 2 powi (exponent x - 52)"
    by (rule x)
  also have "\<dots> = of_int m * (2 ^ j * (2 * MIN_VALUE))"
    by (simp only: p q)
  also have "\<dots> = of_int (m * 2 ^ j) * (2 * MIN_VALUE)"
    by simp
  finally show "\<exists>j. x = of_int j * (2 * MIN_VALUE)" ..
  have "(2::rat) powi (exponent x - 52) / 2 = 2 powi (exponent x - 53)"
    by (simp add: power_int_diff)
  with x have half: "x / 2 = of_int m * 2 powi (exponent x - 53)"
    by (metis times_divide_eq_right)
  from m e have "round64 (of_int m * 2 powi (exponent x - 53)) = of_int m * 2 powi (exponent x - 53)"
    by (intro round64_grid) simp_all
  then show "round64 (x / 2) = x / 2"
    by (simp only: half)
qed

lemma large_double:
  assumes "round64 x = x" and "2 powi (- 1021) \<le> \<bar>x\<bar>"
  shows "\<exists>j. x = of_int j * (2 * MIN_VALUE)" and "round64 (x / 2) = x / 2"
proof -
  have "(0::rat) < 2 powi (- 1021)"
    by simp
  with assms(2) have nz: "x \<noteq> 0"
    by auto
  show "\<exists>j. x = of_int j * (2 * MIN_VALUE)"
  proof (cases "0 < x")
    case True
    with assms have "roundPositive x = x" "2 powi (- 1021) \<le> x"
      by (simp_all add: round64_def)
    then show ?thesis
      by (rule large_pos)
  next
    case False
    with nz assms have "roundPositive (- x) = - x" "2 powi (- 1021) \<le> - x"
      by (simp_all add: round64_def)
    from large_pos(1) [OF this] obtain j where "- x = of_int j * (2 * MIN_VALUE)" ..
    then have "x = of_int (- j) * (2 * MIN_VALUE)"
      by simp
    then show ?thesis ..
  qed
  show "round64 (x / 2) = x / 2"
  proof (cases "0 < x")
    case True
    with assms have "roundPositive x = x" "2 powi (- 1021) \<le> x"
      by (simp_all add: round64_def)
    then show ?thesis
      by (rule large_pos)
  next
    case False
    with nz assms have "roundPositive (- x) = - x" "2 powi (- 1021) \<le> - x"
      by (simp_all add: round64_def)
    from large_pos(2) [OF this] have "round64 (- (x / 2)) = - (x / 2)"
      by simp
    then show ?thesis
      by (simp add: round64_minus)
  qed
qed

subsection \<open>One axis of the smoothing\<close>

lemma blend_halves: "blend a b = round64 (round64 (a / 2) + round64 (b / 2))"
  by (simp add: blend_def smoothFactor_def)

lemma blend_commute: "blend a b = blend b a"
  by (simp add: blend_halves add.commute)

lemma blend_minus: "blend (- a) (- b) = - blend a b"
proof -
  have "round64 (- a / 2) + round64 (- b / 2) = - (round64 (a / 2) + round64 (b / 2))"
    using round64_minus [of "a / 2"] round64_minus [of "b / 2"] by simp
  then show ?thesis
    by (simp only: blend_halves round64_minus)
qed

lemma blend_mono:
  assumes "a \<le> a'" and "b \<le> b'"
  shows "blend a b \<le> blend a' b'"
  unfolding blend_halves using assms
  by (intro round64_mono add_mono) simp_all

lemma blend_exact:
  assumes "round64 (a / 2) = a / 2" and "round64 (b / 2) = b / 2"
  shows "blend a b = round64 ((a + b) / 2)"
  by (simp add: blend_halves assms add_divide_distrib)

lemma midpoint_lower:
  assumes "round64 a = a" and "a < b"
  shows "a \<le> round64 ((a + b) / 2)"
    and "\<lbrakk>round64 d = d; a < d; d < b\<rbrakk> \<Longrightarrow> a < round64 ((a + b) / 2)"
proof -
  have "round64 a \<le> round64 ((a + b) / 2)"
    using assms(2) by (intro round64_mono) simp
  then show weak: "a \<le> round64 ((a + b) / 2)"
    by (simp only: assms(1))
  show "a < round64 ((a + b) / 2)" if "round64 d = d" "a < d" "d < b"
  proof (rule ccontr)
    assume "\<not> a < round64 ((a + b) / 2)"
    with weak have eq: "round64 ((a + b) / 2) = a"
      by simp
    from round64_nearest [OF that(1), of "(a + b) / 2"]
    have "\<bar>a - (a + b) / 2\<bar> \<le> \<bar>d - (a + b) / 2\<bar>"
      by (simp only: eq)
    with that(2,3) assms(2) show False
      by (simp add: abs_if field_simps split: if_splits)
  qed
qed

lemma blend_lattice:
  assumes "\<bar>ka\<bar> \<le> 2 ^ 53" and "\<bar>kb\<bar> \<le> 2 ^ 53"
  shows "blend (of_int ka * MIN_VALUE) (of_int kb * MIN_VALUE) =
    of_int (roundHalfEven (of_int ka / 2) + roundHalfEven (of_int kb / 2)) * MIN_VALUE"
proof -
  let ?ra = "roundHalfEven (of_int ka / 2)" and ?rb = "roundHalfEven (of_int kb / 2)"
  from halves_small [OF assms(1)] halves_small [OF assms(2)] have "\<bar>?ra + ?rb\<bar> \<le> 2 ^ 53"
    by simp
  then have "round64 (of_int (?ra + ?rb) * MIN_VALUE) = of_int (?ra + ?rb) * MIN_VALUE"
    by (rule lattice_double)
  moreover have "of_int ?ra * MIN_VALUE + of_int ?rb * MIN_VALUE = of_int (?ra + ?rb) * MIN_VALUE"
    by (simp add: distrib_right)
  ultimately show ?thesis
    by (simp only: blend_halves lattice_half [OF assms(1)] lattice_half [OF assms(2)])
qed

lemma binade_powers:
  "(2::rat) powi (- 1021) = 2 ^ 53 * MIN_VALUE"
  "(2::rat) powi (- 1020) = 2 ^ 54 * MIN_VALUE"
  "(2::rat) powi (- 1073) = 2 * MIN_VALUE"
  "(2::rat) powi (- 1022) = 2 ^ 52 * MIN_VALUE"
  by (simp_all add: MIN_VALUE_def power_int_minus_divide)

lemma tie_at_binade_pos:
  "roundPositive (of_int (2 ^ 53 + 1) * MIN_VALUE) = of_int (2 ^ 53) * MIN_VALUE"
proof -
  let ?x = "of_int (2 ^ 53 + 1) * MIN_VALUE :: rat"
  have u: "0 < MIN_VALUE"
    by (simp add: MIN_VALUE_def)
  have "exponent ?x = - 1021"
  proof (rule exponent_unique)
    show "2 powi (- 1021) \<le> ?x"
      unfolding binade_powers using u by simp
    have next_binade: "(- 1021 :: int) + 1 = - 1020"
      by simp
    show "?x < 2 powi (- 1021 + 1)"
      unfolding next_binade binade_powers using u by simp
  qed
  then have "ulp ?x = 2 powi (- 1073)"
    by (simp add: ulp_def)
  then have ulp: "ulp ?x = 2 * MIN_VALUE"
    by (simp only: binade_powers)
  have q: "?x / (2 * MIN_VALUE) = of_int (2 ^ 53 + 1) / 2"
    using u by simp
  have "(2::int) ^ 53 + 1 = 2 * 2 ^ 52 + 1"
    by simp
  then have "roundHalfEven (of_int (2 ^ 53 + 1) / 2) = 2 ^ 52"
    using roundHalfEven_half_value [of "2 ^ 52"] by simp
  then show ?thesis
    unfolding roundPositive_def ulp q by simp
qed

lemma tie_at_binade:
  "round64 (of_int (- (2 ^ 53) - 1) * MIN_VALUE) = of_int (- (2 ^ 53)) * MIN_VALUE"
proof -
  have u: "0 < MIN_VALUE"
    by (simp add: MIN_VALUE_def)
  have "(of_int (- (2 ^ 53) - 1) :: rat) * MIN_VALUE = - (of_int (2 ^ 53 + 1) * MIN_VALUE)"
    by simp
  moreover have "round64 (- (of_int (2 ^ 53 + 1) * MIN_VALUE)) = - (of_int (2 ^ 53) * MIN_VALUE)"
    using u tie_at_binade_pos by (simp add: round64_def)
  ultimately show ?thesis
    by simp
qed

lemma lattice_order:
  "of_int ka * MIN_VALUE < of_int kb * MIN_VALUE \<longleftrightarrow> ka < kb"
  "of_int ka * MIN_VALUE \<le> of_int kb * MIN_VALUE \<longleftrightarrow> ka \<le> kb"
  "of_int ka * MIN_VALUE = of_int kb * MIN_VALUE \<longleftrightarrow> ka = kb"
  by (simp_all add: MIN_VALUE_def)

lemma exact_half:
  assumes "round64 x = x" and "x = of_int k * MIN_VALUE" and "2 ^ 53 < \<bar>k\<bar> \<or> even k"
  shows "round64 (x / 2) = x / 2"
proof (cases "\<bar>k\<bar> \<le> 2 ^ 53")
  case True
  with assms(3) obtain j where j: "k = 2 * j"
    by auto
  with True have "\<bar>j\<bar> \<le> 2 ^ 53"
    by simp
  then have "round64 (of_int j * MIN_VALUE) = of_int j * MIN_VALUE"
    by (rule lattice_double)
  moreover have "x / 2 = of_int j * MIN_VALUE"
    by (simp add: assms(2) j)
  ultimately show ?thesis
    by simp
next
  case False
  then have "(of_int (2 ^ 53) :: rat) \<le> of_int \<bar>k\<bar>"
    by (simp only: of_int_le_iff)
  then have "2 ^ 53 * MIN_VALUE \<le> \<bar>of_int k :: rat\<bar> * MIN_VALUE"
    by (simp add: MIN_VALUE_def)
  also have "\<dots> = \<bar>x\<bar>"
    by (simp add: assms(2) abs_mult MIN_VALUE_def)
  finally have "2 powi (- 1021) \<le> \<bar>x\<bar>"
    by (simp only: binade_powers)
  with assms(1) show ?thesis
    by (rule large_double)
qed

lemma even_multiple:
  assumes "round64 x = x" and "x = of_int k * MIN_VALUE" and "2 ^ 53 < \<bar>k\<bar>"
  shows "even k"
proof -
  from assms(3) have "(of_int (2 ^ 53) :: rat) \<le> of_int \<bar>k\<bar>"
    by (simp only: of_int_le_iff)
  then have "2 ^ 53 * MIN_VALUE \<le> \<bar>of_int k :: rat\<bar> * MIN_VALUE"
    by (simp add: MIN_VALUE_def)
  also have "\<dots> = \<bar>x\<bar>"
    by (simp add: assms(2) abs_mult MIN_VALUE_def)
  finally have "2 powi (- 1021) \<le> \<bar>x\<bar>"
    by (simp only: binade_powers)
  from large_double(1) [OF assms(1) this] obtain j where "x = of_int j * (2 * MIN_VALUE)" ..
  then have e: "x = of_int (2 * j) * MIN_VALUE"
    by simp
  have "of_int k * MIN_VALUE = x"
    by (simp only: assms(2))
  also note e
  finally have "of_int k * MIN_VALUE = of_int (2 * j) * MIN_VALUE" .
  then have "k = 2 * j"
    by (simp only: lattice_order)
  then show ?thesis
    by simp
qed

text \<open>
  The lower bound of a smoothing step from \<open>a\<close> toward a larger \<open>b\<close>. On the lattice it
  is the integer fact above; where both halvings are exact the step is the rounded
  midpoint; otherwise one of the two is an odd lattice point and the other is beyond the
  lattice.
\<close>

lemma blend_lower_lattice:
  assumes "a = of_int ka * MIN_VALUE" and "b = of_int kb * MIN_VALUE" and "ka < kb"
    and "\<bar>ka\<bar> \<le> 2 ^ 53" and "\<bar>kb\<bar> \<le> 2 ^ 53"
  shows "a \<le> blend a b" and "\<lbrakk>round64 d = d; a < d; d < b\<rbrakk> \<Longrightarrow> a < blend a b"
proof -
  note bl = blend_lattice [OF assms(4,5)]
  note hb = halves_between [OF assms(3)]
  from hb(1) show "a \<le> blend a b"
    unfolding assms(1,2) bl by (simp only: lattice_order)
  show "a < blend a b" if "round64 d = d" "a < d" "d < b"
  proof -
    from double_lattice [OF that(1)] obtain kd where kd: "d = of_int kd * MIN_VALUE" ..
    from that(2,3) have "ka < kd" "kd < kb"
      unfolding kd assms(1,2) by (simp_all only: lattice_order)
    then have "ka + 2 \<le> kb"
      by simp
    from hb(3) [OF this] show ?thesis
      unfolding assms(1,2) bl by (simp only: lattice_order)
  qed
qed

lemma blend_lower_odd:
  assumes "a = of_int ka * MIN_VALUE" and "round64 b = b" and "b = of_int kb * MIN_VALUE"
    and "odd ka" and "\<bar>ka\<bar> \<le> 2 ^ 53" and "2 ^ 53 < kb"
  shows "a < blend a b"
proof -
  let ?ra = "roundHalfEven (of_int ka / 2)"
  from assms(6) have big: "2 ^ 53 < \<bar>kb\<bar>"
    by simp
  from even_multiple [OF assms(2,3) big] obtain j where j: "kb = 2 * j" ..
  have "round64 (b / 2) = b / 2"
    using big by (intro exact_half [OF assms(2,3)]) simp
  moreover have "b / 2 = of_int j * MIN_VALUE"
    by (simp add: assms(3) j)
  ultimately have hb: "round64 (b / 2) = of_int j * MIN_VALUE"
    by simp
  have ha: "round64 (a / 2) = of_int ?ra * MIN_VALUE"
    unfolding assms(1) by (rule lattice_half [OF assms(5)])
  have "even ((2::int) ^ 53)"
    by simp
  with assms(4) have "ka \<noteq> 2 ^ 53"
    by metis
  with assms(5) have top: "ka + 1 \<le> 2 ^ 53"
    by simp
  from roundHalfEven_half_odd(2) [OF assms(4)] have "ka - 1 \<le> 2 * ?ra"
    by auto
  with top assms(6) have up: "ka + 1 \<le> ?ra + j"
    unfolding j by simp
  from top assms(5) have "\<bar>ka + 1\<bar> \<le> 2 ^ 53"
    by simp
  then have "of_int (ka + 1) * MIN_VALUE = round64 (of_int (ka + 1) * MIN_VALUE)"
    by (simp only: lattice_double)
  also from up have "\<dots> \<le> round64 (of_int (?ra + j) * MIN_VALUE)"
    by (intro round64_mono) (simp only: lattice_order)
  also have "of_int (?ra + j) * MIN_VALUE = round64 (a / 2) + round64 (b / 2)"
    by (simp add: ha hb distrib_right)
  finally have "of_int (ka + 1) * MIN_VALUE \<le> blend a b"
    by (simp only: blend_halves)
  moreover have "a < of_int (ka + 1) * MIN_VALUE"
    unfolding assms(1) by (simp only: lattice_order)
  ultimately show ?thesis
    by simp
qed

lemma blend_lower_far:
  assumes "round64 a = a" and "a = of_int ka * MIN_VALUE" and "b = of_int kb * MIN_VALUE"
    and "\<bar>kb\<bar> \<le> 2 ^ 53" and "ka < - (2 ^ 53)"
  shows "a < blend a b"
proof -
  define b0 :: rat where "b0 = of_int (- (2 ^ 53)) * MIN_VALUE"
  from assms(5) have big: "2 ^ 53 < \<bar>ka\<bar>"
    by simp
  from even_multiple [OF assms(1,2) big] obtain j where j: "ka = 2 * j" ..
  with assms(5) have far: "ka \<le> - (2 ^ 53) - 2"
    by simp
  have exa: "round64 (a / 2) = a / 2"
    using big by (intro exact_half [OF assms(1,2)]) simp
  have b0: "round64 b0 = b0"
    unfolding b0_def by (rule lattice_double) simp
  have exb: "round64 (b0 / 2) = b0 / 2"
    by (rule exact_half [OF b0 b0_def]) simp
  have lt: "a < b0"
    unfolding assms(2) b0_def using assms(5) by (simp only: lattice_order)
  have "b0 \<le> b"
    unfolding assms(3) b0_def using assms(4) by (simp only: lattice_order)
  then have "blend a b0 \<le> blend a b"
    by (intro blend_mono) simp_all
  moreover have "a < blend a b0"
  proof (cases "ka = - (2 ^ 53) - 2")
    case True
    have mid: "(a + b0) / 2 = of_int (- (2 ^ 53) - 1) * MIN_VALUE"
      by (simp add: assms(2) b0_def True field_simps)
    have "blend a b0 = round64 ((a + b0) / 2)"
      by (rule blend_exact [OF exa exb])
    also have "\<dots> = of_int (- (2 ^ 53)) * MIN_VALUE"
      unfolding mid by (rule tie_at_binade)
    finally have "blend a b0 = b0"
      by (simp only: b0_def)
    with lt show ?thesis
      by simp
  next
    case False
    with far have less: "ka < - (2 ^ 53) - 2"
      by simp
    define d0 :: rat where "d0 = of_int (- (2 ^ 53) - 2) * MIN_VALUE"
    have "d0 = of_int (- (2 ^ 52) - 1) * 2 powi (- 1073)"
      unfolding binade_powers by (simp add: d0_def)
    moreover have "round64 (of_int (- (2 ^ 52) - 1) * 2 powi (- 1073)) = of_int (- (2 ^ 52) - 1) * 2 powi (- 1073)"
      by (rule round64_grid) simp_all
    ultimately have d0: "round64 d0 = d0"
      by simp
    have "a < d0"
      unfolding assms(2) d0_def using less by (simp only: lattice_order)
    moreover have "d0 < b0"
      unfolding b0_def d0_def by (simp only: lattice_order)
    ultimately have "a < round64 ((a + b0) / 2)"
      by (intro midpoint_lower(2) [OF assms(1) lt d0])
    then show ?thesis
      by (simp only: blend_exact [OF exa exb])
  qed
  ultimately show ?thesis
    by simp
qed

lemma blend_lower:
  assumes a: "round64 a = a" and b: "round64 b = b" and lt: "a < b"
  shows "a \<le> blend a b" and "\<lbrakk>round64 d = d; a < d; d < b\<rbrakk> \<Longrightarrow> a < blend a b"
proof -
  from double_lattice [OF a] obtain ka where ka: "a = of_int ka * MIN_VALUE" ..
  from double_lattice [OF b] obtain kb where kb: "b = of_int kb * MIN_VALUE" ..
  from lt have k: "ka < kb"
    unfolding ka kb by (simp only: lattice_order)
  have exa: "round64 (a / 2) = a / 2" if "2 ^ 53 < \<bar>ka\<bar> \<or> even ka"
    using that by (rule exact_half [OF a ka])
  have exb: "round64 (b / 2) = b / 2" if "2 ^ 53 < \<bar>kb\<bar> \<or> even kb"
    using that by (rule exact_half [OF b kb])
  consider (lattice) "\<bar>ka\<bar> \<le> 2 ^ 53" "\<bar>kb\<bar> \<le> 2 ^ 53"
    | (exact) "round64 (a / 2) = a / 2" "round64 (b / 2) = b / 2"
    | (odd) "odd ka" "\<bar>ka\<bar> \<le> 2 ^ 53" "2 ^ 53 < kb"
    | (far) "\<bar>kb\<bar> \<le> 2 ^ 53" "ka < - (2 ^ 53)"
  proof (cases "2 ^ 53 < \<bar>ka\<bar> \<or> even ka")
    case False
    then have small: "odd ka" "\<bar>ka\<bar> \<le> 2 ^ 53"
      by simp_all
    show ?thesis
    proof (cases "\<bar>kb\<bar> \<le> 2 ^ 53")
      case True
      with small(2) show ?thesis
        by (rule lattice)
    next
      case False
      with k small(2) have "2 ^ 53 < kb"
        by simp
      with small show ?thesis
        by (rule odd)
    qed
  next
    case True
    note ea = exa [OF this]
    show ?thesis
    proof (cases "2 ^ 53 < \<bar>kb\<bar> \<or> even kb")
      case True
      from ea exb [OF this] show ?thesis
        by (rule exact)
    next
      case False
      then have small: "\<bar>kb\<bar> \<le> 2 ^ 53"
        by simp
      show ?thesis
      proof (cases "\<bar>ka\<bar> \<le> 2 ^ 53")
        case True
        from this small show ?thesis
          by (rule lattice)
      next
        case False
        with k small have "ka < - (2 ^ 53)"
          by simp
        with small show ?thesis
          by (rule far)
      qed
    qed
  qed
  then have "a \<le> blend a b \<and> (round64 d = d \<and> a < d \<and> d < b \<longrightarrow> a < blend a b)"
  proof cases
    case lattice
    from blend_lower_lattice [OF ka kb k lattice] show ?thesis
      by blast
  next
    case exact
    from midpoint_lower [OF a lt] show ?thesis
      unfolding blend_exact [OF exact] by blast
  next
    case odd
    from blend_lower_odd [OF ka b kb odd] show ?thesis
      by simp
  next
    case far
    from blend_lower_far [OF a ka kb far] show ?thesis
      by simp
  qed
  then show "a \<le> blend a b" and "\<lbrakk>round64 d = d; a < d; d < b\<rbrakk> \<Longrightarrow> a < blend a b"
    by blast+
qed

lemma blend_upper:
  assumes a: "round64 a = a" and b: "round64 b = b" and lt: "a < b"
  shows "blend a b \<le> b" and "\<lbrakk>round64 d = d; a < d; d < b\<rbrakk> \<Longrightarrow> blend a b < b"
proof -
  from a b have ma: "round64 (- a) = - a" and mb: "round64 (- b) = - b"
    by (simp_all add: round64_minus)
  from lt have mlt: "- b < - a"
    by simp
  have flip: "blend (- b) (- a) = - blend a b"
    by (simp only: blend_minus blend_commute [of b a])
  from blend_lower(1) [OF mb ma mlt] show "blend a b \<le> b"
    unfolding flip by simp
  show "blend a b < b" if "round64 d = d" "a < d" "d < b"
  proof -
    from that have "round64 (- d) = - d" "- b < - d" "- d < - a"
      by (simp_all add: round64_minus)
    from blend_lower(2) [OF mb ma mlt this] show ?thesis
      unfolding flip by simp
  qed
qed

subsection \<open>The clock and the centroid stay finite\<close>

text \<open>
  With timestamps that are non-negative doubles, no operation of the clock leaves the
  range of the doubles; the mean of coordinates that lie between two doubles does not
  either.
\<close>

lemma clock_stays_finite:
  assumes "isDouble ts" and "isDouble (gameStartTimeRef s)"
    and "0 \<le> ts" and "0 \<le> gameStartTimeRef s"
  shows "isDouble (round64 (ts - gameStartTimeRef s))" and "isDouble (elapsed ts s)"
    and "isDouble (round64 (GAME_DURATION_SEC - elapsed ts s))" and "isDouble (remaining ts s)"
proof -
  let ?t0 = "gameStartTimeRef s"
  let ?d = "round64 (ts - ?t0)"
  from assms(2) have m: "isDouble (- ?t0)"
    by (simp only: isDouble_minus)
  from assms(3,4) have "- ?t0 \<le> ts - ?t0" "ts - ?t0 \<le> ts"
    by simp_all
  note d = round64_in_range [OF m assms(1) this]
  from d(1) show "isDouble ?d" .
  have big: "isDouble (of_int (- (2 ^ 45)) * 2 powi 970)" "isDouble (of_int (2 ^ 45) * 2 powi 970)"
    "isDouble (of_int (- (2 ^ 46)) * 2 powi 970)" "isDouble (of_int (2 ^ 46) * 2 powi 970)"
    by (rule isDouble_grid; simp)+
  have p: "of_int (2 ^ 45) * 2 powi 970 = (2 ^ 1015 :: rat)"
    "of_int (2 ^ 46) * 2 powi 970 = (2 ^ 1016 :: rat)"
    "of_int (- (2 ^ 45)) * 2 powi 970 = (- (2 ^ 1015) :: rat)"
    "of_int (- (2 ^ 46)) * 2 powi 970 = (- (2 ^ 1016) :: rat)"
    by simp_all
  from d(1) have "\<bar>?d\<bar> < 2 ^ 1024"
    by (simp add: isDouble_def)
  then have "- (2 ^ 1015) \<le> ?d / 1000 \<and> ?d / 1000 \<le> 2 ^ 1015"
    by (simp add: abs_if field_simps split: if_splits)
  then have "of_int (- (2 ^ 45)) * 2 powi 970 \<le> ?d / 1000" "?d / 1000 \<le> of_int (2 ^ 45) * 2 powi 970"
    by (simp_all only: p)
  note e = round64_in_range [OF big(1,2) this]
  from e(1) show "isDouble (elapsed ts s)"
    by (simp only: elapsed_def)
  from e(2,3) have "- (2 ^ 1015) \<le> elapsed ts s" "elapsed ts s \<le> 2 ^ 1015"
    by (simp_all only: p elapsed_def)
  then have "- (2 ^ 1016) \<le> GAME_DURATION_SEC - elapsed ts s \<and>
      GAME_DURATION_SEC - elapsed ts s \<le> 2 ^ 1016"
    by (simp add: GAME_DURATION_SEC_def)
  then have "of_int (- (2 ^ 46)) * 2 powi 970 \<le> GAME_DURATION_SEC - elapsed ts s"
    "GAME_DURATION_SEC - elapsed ts s \<le> of_int (2 ^ 46) * 2 powi 970"
    by (simp_all only: p)
  from round64_in_range(1) [OF big(3,4) this]
  show r: "isDouble (round64 (GAME_DURATION_SEC - elapsed ts s))" .
  have "isDouble 0"
    using isDouble_grid [of 0 0] by simp
  with r show "isDouble (remaining ts s)"
    by (simp add: remaining_def max_def)
qed

lemma mean_between:
  fixes xs :: "rat list"
  assumes "xs \<noteq> []" and "\<forall>x\<in>set xs. lo \<le> x \<and> x \<le> hi"
  shows "lo \<le> sum_list xs / of_nat (length xs)" and "sum_list xs / of_nat (length xs) \<le> hi"
proof -
  from assms(2) have "of_nat (length xs) * lo \<le> sum_list xs \<and> sum_list xs \<le> of_nat (length xs) * hi"
    by (induction xs) (auto simp: algebra_simps)
  moreover from assms(1) have "(0::rat) < of_nat (length xs)"
    by simp
  ultimately show "lo \<le> sum_list xs / of_nat (length xs)" "sum_list xs / of_nat (length xs) \<le> hi"
    by (simp_all add: pos_le_divide_eq pos_divide_le_eq mult.commute)
qed

lemma centroid_in_range:
  assumes "ps \<noteq> []" and "isDouble lo" and "isDouble hi"
    and "\<forall>p\<in>set ps. lo \<le> fst p \<and> fst p \<le> hi \<and> lo \<le> snd p \<and> snd p \<le> hi"
  shows "isDouble (fst (centroid ps))" and "isDouble (snd (centroid ps))"
proof -
  from assms(1) have ne: "map fst ps \<noteq> []" "map snd ps \<noteq> []"
    by simp_all
  from assms(4) have "\<forall>x\<in>set (map fst ps). lo \<le> x \<and> x \<le> hi"
    "\<forall>x\<in>set (map snd ps). lo \<le> x \<and> x \<le> hi"
    by auto
  from mean_between [OF ne(1) this(1)] mean_between [OF ne(2) this(2)]
  show "isDouble (fst (centroid ps))" "isDouble (snd (centroid ps))"
    using round64_in_range(1) [OF assms(2,3)] by (simp_all add: centroid_def)
qed

subsection \<open>The cursor\<close>

lemma smooth_axes:
  "fst (smooth prev avg) = blend (fst prev) (fst avg)"
  "snd (smooth prev avg) = blend (snd prev) (snd avg)"
  by (simp_all add: smooth_def)

lemma blend_between:
  assumes "isDouble a" and "isDouble b" and "a \<noteq> b"
  shows "isDouble (blend a b)" and "liesBetween a b (blend a b)"
    and "\<lbrakk>isDouble d; liesStrictlyBetween a b d\<rbrakk> \<Longrightarrow> liesStrictlyBetween a b (blend a b)"
    and "blend a b = a \<or> blend a b = b \<or> liesStrictlyBetween a b (blend a b)"
proof -
  from assms(1,2) have a: "round64 a = a" and b: "round64 b = b"
    and range: "\<bar>a\<bar> < 2 ^ 1024" "\<bar>b\<bar> < 2 ^ 1024"
    by (simp_all add: isDouble_def)
  have weak: "min a b \<le> blend a b \<and> blend a b \<le> max a b"
  proof (cases "a < b")
    case True
    with blend_lower(1) [OF a b True] blend_upper(1) [OF a b True] show ?thesis
      by (simp add: min_def max_def)
  next
    case False
    with assms(3) have lt: "b < a"
      by simp
    with blend_lower(1) [OF b a lt] blend_upper(1) [OF b a lt] show ?thesis
      by (simp add: min_def max_def blend_commute [of a b])
  qed
  then show "liesBetween a b (blend a b)"
    by (simp add: liesBetween_def)
  from weak show "blend a b = a \<or> blend a b = b \<or> liesStrictlyBetween a b (blend a b)"
    by (auto simp: liesStrictlyBetween_def min_def max_def split: if_splits)
  have "round64 (blend a b) = blend a b"
    by (simp only: blend_halves round64_idem)
  moreover from weak range have "\<bar>blend a b\<bar> < 2 ^ 1024"
    by (simp add: min_def max_def abs_if split: if_splits)
  ultimately show "isDouble (blend a b)"
    by (simp add: isDouble_def)
  show "liesStrictlyBetween a b (blend a b)" if "isDouble d" "liesStrictlyBetween a b d"
  proof (cases "a < b")
    case True
    from that have d: "round64 d = d" "a < d" "d < b"
      using True by (simp_all add: isDouble_def liesStrictlyBetween_def min_def max_def)
    from blend_lower(2) [OF a b True d] blend_upper(2) [OF a b True d] True show ?thesis
      by (simp add: liesStrictlyBetween_def min_def max_def)
  next
    case False
    with assms(3) have lt: "b < a"
      by simp
    from that have d: "round64 d = d" "b < d" "d < a"
      using lt by (simp_all add: isDouble_def liesStrictlyBetween_def min_def max_def)
    from blend_lower(2) [OF b a lt d] blend_upper(2) [OF b a lt d] lt show ?thesis
      by (simp add: liesStrictlyBetween_def min_def max_def blend_commute [of a b])
  qed
qed

text \<open>
  Claim C9, as the code has it. The previous position and the centroid are doubles. On
  an axis where they differ, the new position, \<^verbatim>\<open>prev * 0.5 + P * (1 - 0.5)\<close> with the two
  products and the sum rounded, is a double between \<open>prev\<close> and \<open>P\<close>, ends included: the
  cursor moves toward \<open>P\<close> and never passes it. It is strictly between them whenever some
  double \<open>d\<close> lies strictly between them. Where none does, \<open>prev\<close> and \<open>P\<close> are
  neighbouring doubles and the new position is one of the two.
\<close>

theorem smoothed_cursor_never_overshoots:
  assumes "ps \<noteq> []"
    and "isDouble (fst prev)" and "isDouble (snd prev)"
    and "isDouble (fst (centroid ps))" and "isDouble (snd (centroid ps))"
  shows "updateCursor ps (Some prev) = Some (smooth prev (centroid ps)) \<and>
    (fst prev \<noteq> fst (centroid ps) \<longrightarrow>
       isDouble (fst (smooth prev (centroid ps))) \<and>
       liesBetween (fst prev) (fst (centroid ps)) (fst (smooth prev (centroid ps))) \<and>
       (isDouble dx \<and> liesStrictlyBetween (fst prev) (fst (centroid ps)) dx \<longrightarrow>
          liesStrictlyBetween (fst prev) (fst (centroid ps)) (fst (smooth prev (centroid ps)))) \<and>
       (fst (smooth prev (centroid ps)) = fst prev \<or>
        fst (smooth prev (centroid ps)) = fst (centroid ps) \<or>
        liesStrictlyBetween (fst prev) (fst (centroid ps)) (fst (smooth prev (centroid ps))))) \<and>
    (snd prev \<noteq> snd (centroid ps) \<longrightarrow>
       isDouble (snd (smooth prev (centroid ps))) \<and>
       liesBetween (snd prev) (snd (centroid ps)) (snd (smooth prev (centroid ps))) \<and>
       (isDouble dy \<and> liesStrictlyBetween (snd prev) (snd (centroid ps)) dy \<longrightarrow>
          liesStrictlyBetween (snd prev) (snd (centroid ps)) (snd (smooth prev (centroid ps)))) \<and>
       (snd (smooth prev (centroid ps)) = snd prev \<or>
        snd (smooth prev (centroid ps)) = snd (centroid ps) \<or>
        liesStrictlyBetween (snd prev) (snd (centroid ps)) (snd (smooth prev (centroid ps)))))"
proof -
  from assms(1) have "updateCursor ps (Some prev) = Some (smooth prev (centroid ps))"
    by (simp add: updateCursor_def)
  with blend_between [OF assms(2,4)] blend_between [OF assms(3,5)] show ?thesis
    unfolding smooth_axes by blast
qed

text \<open>Doubles at hand, and a centroid.\<close>

lemma doubles_at_hand:
  "isDouble 0" "isDouble 1" "isDouble 4" "isDouble 8"
  "isDouble (1 + 1 / 2 ^ 52)" "isDouble (1 + 3 / 2 ^ 52)"
proof -
  show "isDouble 0" "isDouble 1" "isDouble 4" "isDouble 8"
    using isDouble_grid [of 0 0] isDouble_grid [of 1 0] isDouble_grid [of 4 0]
      isDouble_grid [of 8 0]
    by simp_all
  have "of_int (2 ^ 52 + 1) * 2 powi (- 52) = (1 + 1 / 2 ^ 52 :: rat)"
    "of_int (2 ^ 52 + 3) * 2 powi (- 52) = (1 + 3 / 2 ^ 52 :: rat)"
    by (simp_all add: power_int_minus_divide add_divide_distrib)
  moreover have "isDouble (of_int (2 ^ 52 + 1) * 2 powi (- 52))"
    "isDouble (of_int (2 ^ 52 + 3) * 2 powi (- 52))"
    by (rule isDouble_grid; simp)+
  ultimately show "isDouble (1 + 1 / 2 ^ 52)" "isDouble (1 + 3 / 2 ^ 52)"
    by simp_all
qed

lemma odd_midpoint: "\<not> isDouble ((1 + (1 + 3 / 2 ^ 52)) / 2)"
proof -
  have "round64 ((1 + (1 + 3 / 2 ^ 52)) / 2) = 1 + 1 / 2 ^ 51"
    by code_simp
  then show ?thesis
    by (simp add: isDouble_def)
qed

lemma centroid_single:
  assumes "isDouble x" and "isDouble y"
  shows "centroid [(x, y)] = (x, y)"
  using assms by (simp add: centroid_def isDouble_def)

lemma cursor_steps:
  "updateCursor [(0, 0)] None = Some (0, 0)"
  "centroid [(8, 8)] = (8, 8)"
  "centroid [(1 + 3 / 2 ^ 52, 8)] = (1 + 3 / 2 ^ 52, 8)"
  using doubles_at_hand by (simp_all add: updateCursor_def centroid_single)

lemma first_pull: "blend 0 8 = 4"
proof -
  have "round64 (0 / 2) = 0 / 2" "round64 (8 / 2) = 8 / 2" "round64 ((0 + 8) / 2) = 4"
    using doubles_at_hand(1,3) by (simp_all add: isDouble_def)
  with blend_exact [of 0 8] show ?thesis
    by simp
qed

text \<open>
  From the origin toward (8, 8): the double 4 is between, and the step lands strictly
  between. From 1 toward \<open>1 + 3 / 2\<^sup>5\<^sup>2\<close>: the midpoint is no double, the double
  \<open>1 + 1 / 2\<^sup>5\<^sup>2\<close> is between, and the step lands strictly between.
\<close>

theorem smoothed_cursor_never_overshoots_witness:
  "[(8, 8)] \<noteq> ([] :: point list) \<and> isDouble 0 \<and> isDouble 8 \<and> isDouble 4 \<and>
   centroid [(8, 8)] = (8, 8) \<and> liesStrictlyBetween 0 8 4 \<and>
   updateCursor [(8, 8)] (Some (0, 0)) = Some (smooth (0, 0) (centroid [(8, 8)])) \<and>
   fst (smooth (0, 0) (centroid [(8, 8)])) = 4 \<and>
   isDouble (fst (smooth (0, 0) (centroid [(8, 8)]))) \<and>
   liesStrictlyBetween 0 8 (fst (smooth (0, 0) (centroid [(8, 8)]))) \<and>
   liesStrictlyBetween 0 8 (snd (smooth (0, 0) (centroid [(8, 8)]))) \<and>
   isDouble 1 \<and> isDouble (1 + 3 / 2 ^ 52) \<and> isDouble (1 + 1 / 2 ^ 52) \<and>
   centroid [(1 + 3 / 2 ^ 52, 8)] = (1 + 3 / 2 ^ 52, 8) \<and>
   \<not> isDouble ((1 + (1 + 3 / 2 ^ 52)) / 2) \<and>
   liesStrictlyBetween 1 (1 + 3 / 2 ^ 52) (1 + 1 / 2 ^ 52) \<and>
   liesStrictlyBetween 1 (1 + 3 / 2 ^ 52) (fst (smooth (1, 0) (1 + 3 / 2 ^ 52, 8)))"
proof -
  have ne: "[(8, 8)] \<noteq> ([] :: point list)" "[(1 + 3 / 2 ^ 52, 8)] \<noteq> ([] :: point list)"
    by simp_all
  have between: "liesStrictlyBetween 0 8 4"
    "liesStrictlyBetween 1 (1 + 3 / 2 ^ 52) (1 + 1 / 2 ^ 52)"
    by (simp_all add: liesStrictlyBetween_def)
  have differ: "(0::rat) \<noteq> 8" "(1::rat) \<noteq> 1 + 3 / 2 ^ 52"
    by simp_all
  note odd_mid = odd_midpoint
  have landed: "fst (smooth (0, 0) (centroid [(8, 8)])) = 4"
    by (simp add: cursor_steps smooth_axes first_pull)
  from smoothed_cursor_never_overshoots [of "[(8, 8)]" "(0, 0)" 4 4]
    ne(1) doubles_at_hand(1,3,4) between(1) differ(1)
  have origin: "updateCursor [(8, 8)] (Some (0, 0)) = Some (smooth (0, 0) (centroid [(8, 8)]))"
    "isDouble (fst (smooth (0, 0) (centroid [(8, 8)])))"
    "liesStrictlyBetween 0 8 (fst (smooth (0, 0) (centroid [(8, 8)])))"
    "liesStrictlyBetween 0 8 (snd (smooth (0, 0) (centroid [(8, 8)])))"
    by (simp_all add: cursor_steps(2))
  note c = cursor_steps(3)
  have doubles: "isDouble (fst (1::rat, 0::rat))" "isDouble (snd (1::rat, 0::rat))"
    "isDouble (fst (centroid [(1 + 3 / 2 ^ 52, 8)]))"
    "isDouble (snd (centroid [(1 + 3 / 2 ^ 52, 8)]))"
    unfolding c fst_conv snd_conv by (rule doubles_at_hand)+
  note beside = smoothed_cursor_never_overshoots
    [OF ne(2) doubles, where dx = "1 + 1 / 2 ^ 52" and dy = 4]
  have "fst (1::rat, 0::rat) \<noteq> fst (centroid [(1 + 3 / 2 ^ 52, 8)])"
    unfolding c fst_conv by (rule differ(2))
  moreover have "isDouble (1 + 1 / 2 ^ 52) \<and>
      liesStrictlyBetween (fst (1::rat, 0::rat)) (fst (centroid [(1 + 3 / 2 ^ 52, 8)]))
        (1 + 1 / 2 ^ 52)"
    unfolding c fst_conv using doubles_at_hand(5) between(2) by blast
  ultimately have "liesStrictlyBetween (fst (1::rat, 0::rat))
      (fst (centroid [(1 + 3 / 2 ^ 52, 8)]))
      (fst (smooth (1, 0) (centroid [(1 + 3 / 2 ^ 52, 8)])))"
    using beside by blast
  then have "liesStrictlyBetween 1 (1 + 3 / 2 ^ 52) (fst (smooth (1, 0) (1 + 3 / 2 ^ 52, 8)))"
    unfolding c fst_conv .
  with ne(1) doubles_at_hand cursor_steps(2) c between odd_mid landed origin show ?thesis
    by blast
qed

text \<open>
  A cursor that starts at the origin and is pulled by a single active pixel at (8, 8):
  after \<open>k\<close> frames it is at \<open>8 - 8 / 2\<^sup>k\<close> on both axes, exactly, for 53 frames.
\<close>

lemma pulled_form:
  assumes "k \<le> 53"
  shows "\<exists>m. (8 - 8 / 2 ^ k :: rat) = of_int m * 2 powi (- 50) \<and> \<bar>m\<bar> \<le> 2 ^ 53"
proof -
  let ?m = "2 ^ 53 - 2 ^ (53 - k) :: int"
  have "(2::int) ^ (53 - k) \<le> 2 ^ 53"
    by (rule power_increasing) simp_all
  moreover have "(0::int) < 2 ^ (53 - k)"
    by simp
  ultimately have m: "\<bar>?m\<bar> \<le> 2 ^ 53"
    by linarith
  have "(2::rat) ^ (53 - k) * 2 ^ k = 2 ^ 53"
    using assms by (simp flip: power_add)
  then have "(2::rat) ^ (53 - k) / 2 ^ 50 = 8 / 2 ^ k"
    by (simp add: field_simps)
  then have "of_int ?m * 2 powi (- 50) = (8 - 8 / 2 ^ k :: rat)"
    by (simp add: power_int_minus_divide diff_divide_distrib)
  with m show ?thesis
    by metis
qed

lemma pulled_is_double:
  assumes "k \<le> 53"
  shows "isDouble (8 - 8 / 2 ^ k)" and "round64 ((8 - 8 / 2 ^ k) / 2) = (8 - 8 / 2 ^ k) / 2"
proof -
  from pulled_form [OF assms] obtain m
    where c: "(8 - 8 / 2 ^ k :: rat) = of_int m * 2 powi (- 50)" and m: "\<bar>m\<bar> \<le> 2 ^ 53"
    by blast
  have "round64 (of_int m * 2 powi (- 50)) = of_int m * 2 powi (- 50)"
    using m by (intro round64_grid) simp_all
  moreover have "(0::rat) \<le> 8 / 2 ^ k" "(8::rat) / 2 ^ k \<le> 8"
    by (simp_all add: divide_le_eq)
  then have "\<bar>8 - 8 / 2 ^ k :: rat\<bar> \<le> 8"
    by linarith
  then have "\<bar>8 - 8 / 2 ^ k :: rat\<bar> < 2 ^ 1024"
    by (rule le_less_trans) simp
  ultimately show "isDouble (8 - 8 / 2 ^ k)"
    by (simp only: isDouble_def c)
  have "of_int m * 2 powi (- 50) / 2 = (of_int m * 2 powi (- 51) :: rat)"
    by (simp add: power_int_minus_divide)
  moreover have "round64 (of_int m * 2 powi (- 51)) = of_int m * 2 powi (- 51)"
    using m by (intro round64_grid) simp_all
  ultimately show "round64 ((8 - 8 / 2 ^ k) / 2) = (8 - 8 / 2 ^ k) / 2"
    by (simp only: c)
qed

lemma pulled_step:
  assumes "round64 (c / 2) = c / 2" and "round64 ((c + 8) / 2) = (c + 8) / 2"
  shows "updateCursor [(8, 8)] (Some (c, c)) = Some ((c + 8) / 2, (c + 8) / 2)"
proof -
  have "round64 (8 / 2) = 8 / 2"
    using doubles_at_hand(3) by (simp add: isDouble_def)
  from blend_exact [OF assms(1) this] assms(2) have "blend c 8 = (c + 8) / 2"
    by simp
  then show ?thesis
    by (simp add: updateCursor_def cursor_steps smooth_def)
qed

lemma pulled_cursor:
  "k \<le> 53 \<Longrightarrow> (updateCursor [(8, 8)] ^^ k) (Some (0, 0)) = Some (8 - 8 / 2 ^ k, 8 - 8 / 2 ^ k)"
proof (induction k)
  case 0
  show ?case by simp
next
  case (Suc k)
  then have k: "k \<le> 53"
    by simp
  have half: "(8 - 8 / 2 ^ k + 8) / 2 = (8 - 8 / 2 ^ Suc k :: rat)"
    by (simp add: field_simps)
  from pulled_is_double(1) [OF Suc.prems] have "round64 (8 - 8 / 2 ^ Suc k) = 8 - 8 / 2 ^ Suc k"
    by (simp add: isDouble_def)
  then have "round64 ((8 - 8 / 2 ^ k + 8) / 2) = (8 - 8 / 2 ^ k + 8) / 2"
    by (simp only: half)
  from pulled_step [OF pulled_is_double(2) [OF k] this]
  have "updateCursor [(8, 8)] (Some (8 - 8 / 2 ^ k, 8 - 8 / 2 ^ k))
      = Some (8 - 8 / 2 ^ Suc k, 8 - 8 / 2 ^ Suc k)"
    by (simp only: half)
  with Suc.IH [OF k] show ?case
    by simp
qed

lemma last_pull: "round64 (8 - 1 / 2 ^ 51) = 8"
  by code_simp

text \<open>
  Claim C9 as stated fails where \<open>prev\<close> and \<open>P\<close> are neighbouring doubles. The cursor
  that starts at the origin and is pulled toward (8, 8) is at \<open>8 - 2\<^sup>-\<^sup>5\<^sup>0\<close>, the double
  just below 8, after 53 frames; the midpoint \<open>8 - 2\<^sup>-\<^sup>5\<^sup>1\<close> is no double and rounds to the
  even neighbour 8, so the next position is \<open>P\<close> itself and not strictly before it.
\<close>

theorem smoothed_cursor_lands_on_the_centroid:
  "updateCursor [(0, 0)] None = Some (0, 0) \<and>
   (updateCursor [(8, 8)] ^^ 53) (Some (0, 0)) = Some (8 - 1 / 2 ^ 50, 8 - 1 / 2 ^ 50) \<and>
   isDouble (8 - 1 / 2 ^ 50) \<and>
   centroid [(8, 8)] = (8, 8) \<and>
   8 - 1 / 2 ^ 50 \<noteq> (8::rat) \<and>
   updateCursor [(8, 8)] (Some (8 - 1 / 2 ^ 50, 8 - 1 / 2 ^ 50)) = Some (8, 8) \<and>
   \<not> fst (smooth (8 - 1 / 2 ^ 50, 8 - 1 / 2 ^ 50) (centroid [(8, 8)])) < fst (centroid [(8, 8)])"
proof -
  have c: "8 - 8 / 2 ^ 53 = (8 - 1 / 2 ^ 50 :: rat)"
    by simp
  have frames: "(53::nat) \<le> 53"
    by simp
  have reached: "(updateCursor [(8, 8)] ^^ 53) (Some (0, 0)) = Some (8 - 1 / 2 ^ 50, 8 - 1 / 2 ^ 50)"
    using pulled_cursor [OF frames] by (simp only: c)
  have double: "isDouble (8 - 1 / 2 ^ 50)"
    using pulled_is_double(1) [OF frames] by (simp only: c)
  have half: "round64 ((8 - 1 / 2 ^ 50) / 2) = (8 - 1 / 2 ^ 50) / 2"
    using pulled_is_double(2) [OF frames] by (simp only: c)
  have "round64 (8 / 2) = 8 / 2"
    using doubles_at_hand(3) by (simp add: isDouble_def)
  from blend_exact [OF half this] have "blend (8 - 1 / 2 ^ 50) 8 = 8"
    using last_pull by simp
  then have landed: "smooth (8 - 1 / 2 ^ 50, 8 - 1 / 2 ^ 50) (centroid [(8, 8)]) = (8, 8)"
    by (simp add: smooth_def cursor_steps)
  then have "updateCursor [(8, 8)] (Some (8 - 1 / 2 ^ 50, 8 - 1 / 2 ^ 50)) = Some (8, 8)"
    by (simp add: updateCursor_def)
  moreover from landed have "\<not> fst (smooth (8 - 1 / 2 ^ 50, 8 - 1 / 2 ^ 50) (centroid [(8, 8)]))
      < fst (centroid [(8, 8)])"
    by (simp add: cursor_steps)
  moreover have "8 - 1 / 2 ^ 50 \<noteq> (8::rat)"
    by simp
  ultimately show ?thesis
    using cursor_steps(1,2) reached double by blast
qed

text \<open>
  Two more steps of the code that the rounding decides. At the bottom of the range the
  halves underflow: from \<^verbatim>\<open>Number.MIN_VALUE\<close> toward 0 the step lands on 0, the two being
  neighbours. And the condition \<open>prev \<noteq> P\<close> is needed even for the weak bound: at
  \<open>5 * MIN_VALUE\<close> the two rounded halves are \<open>2 * MIN_VALUE\<close> each, so a cursor resting on
  its centroid there moves to \<open>4 * MIN_VALUE\<close>.
\<close>

lemma smallest_doubles:
  "isDouble MIN_VALUE" "\<not> isDouble (MIN_VALUE / 2)" "round64 (MIN_VALUE / 2) = 0"
proof -
  have u: "0 < MIN_VALUE" "MIN_VALUE < 2 ^ 1024"
    by (simp_all add: MIN_VALUE_def power_int_minus_divide)
  have "round64 (of_int 1 * MIN_VALUE) = of_int 1 * MIN_VALUE"
    by (rule lattice_double) simp
  with u show "isDouble MIN_VALUE"
    by (simp add: isDouble_def)
  have "roundHalfEven (of_int (2 * 0 + 1) / 2) = 0"
    by (simp only: roundHalfEven_half_value) simp
  with lattice_half [of 1] show half: "round64 (MIN_VALUE / 2) = 0"
    by simp
  with u show "\<not> isDouble (MIN_VALUE / 2)"
    by (simp add: isDouble_def)
qed

lemma underflow_step: "blend MIN_VALUE 0 = 0"
proof -
  have "round64 0 = 0"
    by (simp add: round64_def)
  then show ?thesis
    by (simp add: blend_halves smallest_doubles(3))
qed

lemma resting_cursor_moves: "blend (5 * MIN_VALUE) (5 * MIN_VALUE) = 4 * MIN_VALUE"
proof -
  have "roundHalfEven (of_int (2 * 2 + 1) / 2) = 2"
    by (simp only: roundHalfEven_half_value) simp
  then have "roundHalfEven (of_int 5 / 2) = 2"
    by simp
  with blend_lattice [of 5 5] show ?thesis
    by simp
qed

end
